theory Spec2Isabelle
  imports Main "HOL-Library.Word"
begin

unbundle bit_operations_syntax

section \<open>fbhuploader: deploying a directory to Firebase Hosting\<close>

text \<open>
  A shallow embedding of \<^verbatim>\<open>main.go\<close>. Everything outside the program (the file
  system, the credential lookup, the hosting service and the HTTP transport) is a field
  of the record \<open>world\<close>; the pure library functions the program calls (gzip, SHA-256,
  the JSON decoder) are fields of the record \<open>stdlib\<close>. Every call that reaches the
  hosting service is appended, together with the answer it got, to a trace. The context
  handed through every call is never cancelled here.
\<close>

subsection \<open>Data\<close>

type_synonym byte = "8 word"
type_synonym bytes = "byte list"

text \<open>The struct \<^verbatim>\<open>FirebaseJSON\<close> and the anonymous structs nested in it.\<close>

record HeaderKV =
  hk_Key :: string
  hk_Value :: string

record HeaderRule =
  hr_Source :: string
  hr_Headers :: "HeaderKV list"

record RedirectRule =
  rr_Source :: string
  rr_Destination :: string
  rr_Type :: int

record Hosting =
  Site :: string
  Public :: string
  Ignore :: "string list"
  CleanURLs :: bool
  TrailingSlash :: bool
  Headers :: "HeaderRule list"
  Redirects :: "RedirectRule list"

record FirebaseJSON =
  Hosting :: Hosting

text \<open>The parts of \<^verbatim>\<open>firebasehosting.ServingConfig\<close> that \<^verbatim>\<open>createVersion\<close> fills in.\<close>

record ServingConfig =
  CleanUrls :: bool
  TrailingSlashBehavior :: string
  sc_Headers :: "(string \<times> (string \<rightharpoonup> string)) list"
  sc_Redirects :: "(string \<times> string \<times> int) list"

text \<open>
  \<^verbatim>\<open>pathToHash\<close> is the manifest. \<^verbatim>\<open>hashToGzip\<close> maps a hash to a pointer to a
  \<^verbatim>\<open>bytes.Buffer\<close>; the model keeps, for each hash, the unread bytes of that buffer. A
  missing key is the nil reader.
\<close>

type_synonym manifest = "string \<rightharpoonup> string"
type_synonym store = "string \<rightharpoonup> bytes"

text \<open>One constructor for each \<^verbatim>\<open>fmt.Errorf\<close> of the program, holding its arguments.\<close>

datatype error =
  ReadConfigErr string string
| UnmarshalErr string string
| HttpClientErr string
| FirebaseClientErr string
| CreateVersionErr string string
| WalkFnErr string
| OpenErr string string
| ReadFromErr string string
| FlushErr string string
| WalkErr string error
| RequiredUploadsErr string string
| CreateRequestErr string string
| UploadErr string string
| UnexpectedUploadResponse string string
| FinalizeErr string string
| UnexpectedFinalizationStatus string
| ReleaseErr string string

text \<open>
  What \<^verbatim>\<open>httpClient.Do\<close> gives back: a transport error, or a response with its
  \<^verbatim>\<open>StatusCode\<close> and \<^verbatim>\<open>Status\<close>.
\<close>

datatype do_result = DoError string | Response int string

text \<open>
  The calls that reach the hosting service, each with its arguments and its answer. The
  natural number of \<open>HttpPost\<close> is how many bytes of the body the transport read.
\<close>

datatype event =
  VersionsCreate string ServingConfig "string + string"
| VersionsPopulateFiles string manifest "string + (string list \<times> string)"
| HttpPost string "bytes option" nat do_result
| VersionsPatch string string "string + string"
| ReleasesCreate string string "string option"

text \<open>
  One entry for each call that \<^verbatim>\<open>fs.WalkDir\<close> makes to the callback of
  \<^verbatim>\<open>readFiles\<close>: the path \<^verbatim>\<open>p\<close>, \<^verbatim>\<open>d.IsDir()\<close>, the error \<^verbatim>\<open>err\<close> handed in,
  and what opening, reading and compressing the file will give.
\<close>

record visit =
  v_path :: string
  v_isDir :: bool
  v_err :: "string option"
  v_open :: "string option"
  v_data :: bytes
  v_readErr :: "string option"
  v_flushErr :: "string option"

text \<open>
  The library functions. \<open>gzipWrite d\<close> is what the gzip writer has put into the buffer
  once \<^verbatim>\<open>io.Copy\<close> has written the data \<open>d\<close> to it, \<open>gzipClose d\<close> is what
  \<^verbatim>\<open>gw.Close()\<close> appends after that.
\<close>

record stdlib =
  gzipWrite :: "bytes \<Rightarrow> bytes"
  gzipClose :: "bytes \<Rightarrow> bytes"
  sha256Sum256 :: "bytes \<Rightarrow> bytes"
  jsonUnmarshal :: "bytes \<Rightarrow> string + FirebaseJSON"

text \<open>
  The environment of one run. The answers of the remote side may depend on every call made
  before (the \<open>event list\<close> argument).
\<close>

record world =
  osReadFile :: "string \<Rightarrow> string + bytes"
  defaultClient :: "string option"
  newService :: "string option"
  walkDir :: "string \<Rightarrow> visit list"
  versionsCreate :: "event list \<Rightarrow> string \<Rightarrow> ServingConfig \<Rightarrow> string + string"
  populateFiles :: "event list \<Rightarrow> string \<Rightarrow> manifest \<Rightarrow> string + (string list \<times> string)"
  newRequest :: "string \<Rightarrow> string option"
  httpDo :: "event list \<Rightarrow> string \<Rightarrow> bytes option \<Rightarrow> nat \<times> do_result"
  versionsPatch :: "event list \<Rightarrow> string \<Rightarrow> string \<Rightarrow> string + string"
  releasesCreate :: "event list \<Rightarrow> string \<Rightarrow> string \<Rightarrow> string option"

subsection \<open>Content addressing\<close>

text \<open>\<^verbatim>\<open>hex.EncodeToString\<close>: two characters of the table for each byte.\<close>

definition hextable :: string where
  "hextable = ''0123456789abcdef''"

fun hexEncodeToString :: "bytes \<Rightarrow> string" where
  "hexEncodeToString [] = []"
| "hexEncodeToString (v # vs) =
     hextable ! unat (drop_bit 4 v) # hextable ! unat (v AND 0x0f) # hexEncodeToString vs"

text \<open>The buffer after \<^verbatim>\<open>io.Copy(gw, f)\<close> and \<^verbatim>\<open>gw.Close()\<close>.\<close>

definition gzipStream :: "stdlib \<Rightarrow> bytes \<Rightarrow> bytes" where
  "gzipStream L d = gzipWrite L d @ gzipClose L d"

definition contentHash :: "stdlib \<Rightarrow> bytes \<Rightarrow> string" where
  "contentHash L d = hexEncodeToString (sha256Sum256 L (gzipStream L d))"

subsection \<open>readFiles\<close>

text \<open>
  The callback handed to \<^verbatim>\<open>fs.WalkDir\<close>, on the two maps it updates. The ignore
  patterns of the configuration are not consulted (the source has a TODO there).
\<close>

definition walkFn :: "stdlib \<Rightarrow> visit \<Rightarrow> manifest \<times> store \<Rightarrow> error + (manifest \<times> store)" where
  "walkFn L v acc =
     (case v_err v of
        Some e \<Rightarrow> Inl (WalkFnErr e)
      | None \<Rightarrow>
          if v_isDir v then Inr acc
          else (case v_open v of
                  Some e \<Rightarrow> Inl (OpenErr (v_path v) e)
                | None \<Rightarrow>
                    (case v_readErr v of
                       Some e \<Rightarrow> Inl (ReadFromErr (v_path v) e)
                     | None \<Rightarrow>
                         (case v_flushErr v of
                            Some e \<Rightarrow> Inl (FlushErr (v_path v) e)
                          | None \<Rightarrow>
                              (let buf = gzipStream L (v_data v);
                                   hash = hexEncodeToString (sha256Sum256 L buf)
                               in Inr ((fst acc)(''/'' @ v_path v \<mapsto> hash),
                                       (snd acc)(hash \<mapsto> buf)))))))"

text \<open>
  \<^verbatim>\<open>fs.WalkDir\<close> stops at the first error the callback returns and returns it. (The
  two errors it would swallow, \<^verbatim>\<open>fs.SkipDir\<close> and \<^verbatim>\<open>fs.SkipAll\<close>, are made by
  callbacks only; this callback makes neither.)
\<close>

fun walk :: "stdlib \<Rightarrow> visit list \<Rightarrow> manifest \<times> store \<Rightarrow> error + (manifest \<times> store)" where
  "walk L [] acc = Inr acc"
| "walk L (v # vs) acc =
     (case walkFn L v acc of Inl e \<Rightarrow> Inl e | Inr acc' \<Rightarrow> walk L vs acc')"

definition readFiles :: "stdlib \<Rightarrow> world \<Rightarrow> FirebaseJSON \<Rightarrow> error + (manifest \<times> store)" where
  "readFiles L W fbConf =
     (case walk L (walkDir W (Public (Hosting fbConf))) (Map.empty, Map.empty) of
        Inl e \<Rightarrow> Inl (WalkErr (Public (Hosting fbConf)) e)
      | Inr r \<Rightarrow> Inr r)"

subsection \<open>readConfig\<close>

definition readConfig :: "stdlib \<Rightarrow> world \<Rightarrow> string \<Rightarrow> error + FirebaseJSON" where
  "readConfig L W fbConfFile =
     (case osReadFile W fbConfFile of
        Inl e \<Rightarrow> Inl (ReadConfigErr fbConfFile e)
      | Inr b \<Rightarrow>
          (case jsonUnmarshal L b of
             Inl e \<Rightarrow> Inl (UnmarshalErr fbConfFile e)
           | Inr fbConf \<Rightarrow> Inr fbConf))"

subsection \<open>createVersion\<close>

text \<open>The inner loop over \<^verbatim>\<open>header.Headers\<close>: a later key overwrites an earlier one.\<close>

definition headerMap :: "HeaderKV list \<Rightarrow> (string \<rightharpoonup> string)" where
  "headerMap hs = fold (\<lambda>hdr hdrs. hdrs(hk_Key hdr \<mapsto> hk_Value hdr)) hs Map.empty"

definition servingConf :: "FirebaseJSON \<Rightarrow> ServingConfig" where
  "servingConf fbConf =
     \<lparr> CleanUrls = CleanURLs (Hosting fbConf),
       TrailingSlashBehavior = (if TrailingSlash (Hosting fbConf) then ''ADD'' else []),
       sc_Headers = map (\<lambda>header. (hr_Source header, headerMap (hr_Headers header)))
                        (Headers (Hosting fbConf)),
       sc_Redirects = map (\<lambda>redirect. (rr_Source redirect, rr_Destination redirect, rr_Type redirect))
                          (Redirects (Hosting fbConf)) \<rparr>"

definition createVersion :: "world \<Rightarrow> FirebaseJSON \<Rightarrow> event list \<Rightarrow> (error + string) \<times> event list" where
  "createVersion W fbConf tr =
     (let siteID = ''sites/'' @ Site (Hosting fbConf);
          r = versionsCreate W tr siteID (servingConf fbConf);
          tr' = tr @ [VersionsCreate siteID (servingConf fbConf) r]
      in case r of
           Inl e \<Rightarrow> (Inl (CreateVersionErr siteID e), tr')
         | Inr name \<Rightarrow> (Inr name, tr'))"

subsection \<open>getRequiredUploads\<close>

definition getRequiredUploads ::
  "world \<Rightarrow> string \<Rightarrow> manifest \<Rightarrow> event list \<Rightarrow> (error + (string list \<times> string)) \<times> event list" where
  "getRequiredUploads W version pathToHash tr =
     (let r = populateFiles W tr version pathToHash;
          tr' = tr @ [VersionsPopulateFiles version pathToHash r]
      in case r of
           Inl e \<Rightarrow> (Inl (RequiredUploadsErr version e), tr')
         | Inr resp \<Rightarrow> (Inr resp, tr'))"

subsection \<open>uploadFiles\<close>

text \<open>
  One round of the loop over \<^verbatim>\<open>toUpload\<close>. The body of the request is whatever
  \<^verbatim>\<open>hashToGzip[uploadHash]\<close> holds: the unread bytes of the buffer, or nothing at all for
  a missing key. Sending reads from the buffer itself, so the bytes read are gone from it
  afterwards. A request that cannot be built is never sent and leaves no event. Draining
  and closing the response body has no part in what is sent and is left out.
\<close>

definition uploadOne ::
  "world \<Rightarrow> string \<Rightarrow> string \<Rightarrow> event list \<Rightarrow> store \<Rightarrow> error option \<times> event list \<times> store" where
  "uploadOne W uploadURL uploadHash tr hashToGzip =
     (let endpoint = uploadURL @ ''/'' @ uploadHash;
          body = hashToGzip uploadHash
      in case newRequest W endpoint of
           Some e \<Rightarrow> (Some (CreateRequestErr uploadHash e), tr, hashToGzip)
         | None \<Rightarrow>
             (case httpDo W tr endpoint body of
                (n, res) \<Rightarrow>
                  (let tr' = tr @ [HttpPost endpoint body n res];
                       hashToGzip' = (case body of
                                        None \<Rightarrow> hashToGzip
                                      | Some b \<Rightarrow> hashToGzip(uploadHash \<mapsto> drop n b))
                   in case res of
                        DoError e \<Rightarrow> (Some (UploadErr uploadHash e), tr', hashToGzip')
                      | Response code status \<Rightarrow>
                          if code \<noteq> 200
                          then (Some (UnexpectedUploadResponse uploadHash status), tr', hashToGzip')
                          else (None, tr', hashToGzip'))))"

fun uploadLoop ::
  "world \<Rightarrow> string \<Rightarrow> string list \<Rightarrow> event list \<Rightarrow> store \<Rightarrow> error option \<times> event list \<times> store" where
  "uploadLoop W uploadURL [] tr hashToGzip = (None, tr, hashToGzip)"
| "uploadLoop W uploadURL (uploadHash # rest) tr hashToGzip =
     (case uploadOne W uploadURL uploadHash tr hashToGzip of
        (Some e, tr', hashToGzip') \<Rightarrow> (Some e, tr', hashToGzip')
      | (None, tr', hashToGzip') \<Rightarrow> uploadLoop W uploadURL rest tr' hashToGzip')"

definition uploadFiles ::
  "world \<Rightarrow> string \<Rightarrow> string list \<Rightarrow> string \<Rightarrow> store \<Rightarrow> event list \<Rightarrow> error option \<times> event list" where
  "uploadFiles W version toUpload uploadURL hashToGzip tr =
     (case uploadLoop W uploadURL toUpload tr hashToGzip of
        (Some e, tr', _) \<Rightarrow> (Some e, tr')
      | (None, tr', _) \<Rightarrow>
          (let r = versionsPatch W tr' version ''FINALIZED'';
               tr'' = tr' @ [VersionsPatch version ''FINALIZED'' r]
           in case r of
                Inl e \<Rightarrow> (Some (FinalizeErr version e), tr'')
              | Inr status \<Rightarrow>
                  if status \<noteq> ''FINALIZED''
                  then (Some (UnexpectedFinalizationStatus status), tr'')
                  else (None, tr'')))"

subsection \<open>release\<close>

definition release :: "world \<Rightarrow> string \<Rightarrow> string \<Rightarrow> event list \<Rightarrow> error option \<times> event list" where
  "release W site version tr =
     (let r = releasesCreate W tr site version;
          tr' = tr @ [ReleasesCreate site version r]
      in case r of
           Some e \<Rightarrow> (Some (ReleaseErr version e), tr')
         | None \<Rightarrow> (None, tr'))"

subsection \<open>run\<close>

text \<open>
  The result is the error returned (\<open>None\<close> for nil) and the calls made to the hosting
  service, in order. Looking up the credentials and building the API client are steps that
  can fail; they are not calls to the hosting service and leave no event.
\<close>

definition run :: "stdlib \<Rightarrow> world \<Rightarrow> error option \<times> event list" where
  "run L W =
     (case readConfig L W ''firebase.json'' of
        Inl e \<Rightarrow> (Some e, [])
      | Inr fbConf \<Rightarrow>
          (case defaultClient W of
             Some e \<Rightarrow> (Some (HttpClientErr e), [])
           | None \<Rightarrow>
               (case newService W of
                  Some e \<Rightarrow> (Some (FirebaseClientErr e), [])
                | None \<Rightarrow>
                    (case createVersion W fbConf [] of
                       (Inl e, tr1) \<Rightarrow> (Some e, tr1)
                     | (Inr version, tr1) \<Rightarrow>
                         (case readFiles L W fbConf of
                            Inl e \<Rightarrow> (Some e, tr1)
                          | Inr (pathToHash, hashToGzip) \<Rightarrow>
                              (case getRequiredUploads W version pathToHash tr1 of
                                 (Inl e, tr2) \<Rightarrow> (Some e, tr2)
                               | (Inr (toUpload, uploadURL), tr2) \<Rightarrow>
                                   (case uploadFiles W version toUpload uploadURL hashToGzip tr2 of
                                      (Some e, tr3) \<Rightarrow> (Some e, tr3)
                                    | (None, tr3) \<Rightarrow>
                                        release W (''sites/'' @ Site (Hosting fbConf)) version tr3)))))))"

section \<open>Notions used to state the properties\<close>

subsection \<open>The walk\<close>

text \<open>The regular files among the entries visited, the manifest key of one, and the
  directory snapshot a walk has seen: its files with their content.\<close>

definition files :: "visit list \<Rightarrow> visit list" where
  "files vs = filter (\<lambda>v. \<not> v_isDir v) vs"

definition fileKey :: "visit \<Rightarrow> string" where
  "fileKey v = ''/'' @ v_path v"

definition snapshot :: "visit list \<Rightarrow> (string \<times> bytes) set" where
  "snapshot vs = (\<lambda>v. (v_path v, v_data v)) ` set (files vs)"

text \<open>What a successful call of the callback on a regular file does to the two maps.\<close>

definition addFile :: "stdlib \<Rightarrow> visit \<Rightarrow> manifest \<times> store \<Rightarrow> manifest \<times> store" where
  "addFile L v acc = ((fst acc)(''/'' @ v_path v \<mapsto> contentHash L (v_data v)),
                      (snd acc)(contentHash L (v_data v) \<mapsto> gzipStream L (v_data v)))"

subsection \<open>The trace\<close>

fun isPost :: "event \<Rightarrow> bool" where
  "isPost (HttpPost endpoint body n res) = True"
| "isPost _ = False"

fun answered200 :: "event \<Rightarrow> bool" where
  "answered200 (HttpPost endpoint body n (Response code status)) = (code = 200)"
| "answered200 _ = False"

fun isPostTo :: "string \<Rightarrow> event \<Rightarrow> bool" where
  "isPostTo ep (HttpPost endpoint body n res) = (endpoint = ep)"
| "isPostTo ep _ = False"

fun postOf :: "event \<Rightarrow> (string \<times> bytes option) option" where
  "postOf (HttpPost endpoint body n res) = Some (endpoint, body)"
| "postOf _ = None"

text \<open>The calls that come before finalizing: creating the version, reconciling, uploading.\<close>

fun isStaging :: "event \<Rightarrow> bool" where
  "isStaging (VersionsPatch version status r) = False"
| "isStaging (ReleasesCreate site version r) = False"
| "isStaging _ = True"

text \<open>The uploads of a trace, in order: where each went and what its body was.\<close>

definition uploads :: "event list \<Rightarrow> (string \<times> bytes option) list" where
  "uploads tr = List.map_filter postOf tr"

text \<open>The buffer of a hash after the transport has read \<open>n\<close> bytes from it, the error
  a single upload ends with, and the error the finalize call ends with.\<close>

definition drain :: "store \<Rightarrow> string \<Rightarrow> nat \<Rightarrow> store" where
  "drain st h n = (case st h of None \<Rightarrow> st | Some b \<Rightarrow> st(h \<mapsto> drop n b))"

definition uploadResult :: "string \<Rightarrow> do_result \<Rightarrow> error option" where
  "uploadResult h res =
     (case res of
        DoError e \<Rightarrow> Some (UploadErr h e)
      | Response code status \<Rightarrow>
          if code \<noteq> 200 then Some (UnexpectedUploadResponse h status) else None)"

definition finalizeResult :: "string \<Rightarrow> string + string \<Rightarrow> error option" where
  "finalizeResult version r =
     (case r of
        Inl e \<Rightarrow> Some (FinalizeErr version e)
      | Inr status \<Rightarrow>
          if status \<noteq> ''FINALIZED'' then Some (UnexpectedFinalizationStatus status) else None)"

section \<open>Concrete runs\<close>

text \<open>
  A small site and a co-operative environment, used to run the model on concrete inputs.
  The stand-ins for gzip and SHA-256 frame the data with two magic bytes and a length
  byte, and digest a stream into the sum of its bytes and its length.
\<close>

definition fileVisit :: "string \<Rightarrow> bytes \<Rightarrow> visit" where
  "fileVisit p d = \<lparr> v_path = p, v_isDir = False, v_err = None, v_open = None,
                     v_data = d, v_readErr = None, v_flushErr = None \<rparr>"

definition dirVisit :: "string \<Rightarrow> visit" where
  "dirVisit p = \<lparr> v_path = p, v_isDir = True, v_err = None, v_open = None,
                  v_data = [], v_readErr = None, v_flushErr = None \<rparr>"

definition demoConf :: FirebaseJSON where
  "demoConf = \<lparr> Hosting = \<lparr> Site = ''demo'', Public = ''public'', Ignore = [''secret.txt''],
       CleanURLs = True, TrailingSlash = False, Headers = [], Redirects = [] \<rparr> \<rparr>"

definition demoLib :: stdlib where
  "demoLib = \<lparr> gzipWrite = (\<lambda>d. 0x1f # 0x8b # d),
               gzipClose = (\<lambda>d. [of_nat (length d)]),
               sha256Sum256 = (\<lambda>b. [sum_list b, of_nat (length b)]),
               jsonUnmarshal = (\<lambda>b. Inr demoConf) \<rparr>"

definition demoWorld :: world where
  "demoWorld = \<lparr> osReadFile = (\<lambda>f. Inr []),
       defaultClient = None,
       newService = None,
       walkDir = (\<lambda>root. [dirVisit ''.'', fileVisit ''index.html'' [0x48, 0x69],
                            fileVisit ''secret.txt'' [0x70]]),
       versionsCreate = (\<lambda>tr site conf. Inr ''v1''),
       populateFiles = (\<lambda>tr version fs. Inr ([''5d05''], ''https://up'')),
       newRequest = (\<lambda>endpoint. None),
       httpDo = (\<lambda>tr endpoint body.
                   (case body of None \<Rightarrow> 0 | Some b \<Rightarrow> length b, Response 200 ''200 OK'')),
       versionsPatch = (\<lambda>tr version status. Inr ''FINALIZED''),
       releasesCreate = (\<lambda>tr site version. None) \<rparr>"

text \<open>The same directory, visited in another order.\<close>

definition demoWorld2 :: world where
  "demoWorld2 = demoWorld \<lparr> walkDir := (\<lambda>root. [dirVisit ''.'', fileVisit ''secret.txt'' [0x70],
                                               fileVisit ''index.html'' [0x48, 0x69]]) \<rparr>"

text \<open>The content store of that site, and environments that differ from the co-operative
  one in an answer or two: an upload refused (and reconciliation asking for both hashes,
  so that a run meets it), a version not finalized, a file that cannot be opened, a
  missing configuration file, and two files with the same content whose hash
  reconciliation lists twice.\<close>

definition demoStore :: store where
  "demoStore = [''5d05'' \<mapsto> [0x1f, 0x8b, 0x48, 0x69, 2], ''1b04'' \<mapsto> [0x1f, 0x8b, 0x70, 1]]"

definition failingWorld :: world where
  "failingWorld = demoWorld \<lparr> httpDo := (\<lambda>tr endpoint body.
       (0, if endpoint = ''https://up/1b04'' then Response 500 ''500 Internal Server Error''
           else Response 200 ''200 OK'')) \<rparr>"

definition refusedWorld :: world where
  "refusedWorld = failingWorld \<lparr> populateFiles :=
       (\<lambda>tr version fs. Inr ([''5d05'', ''1b04''], ''https://up'')) \<rparr>"

definition notFinalWorld :: world where
  "notFinalWorld = demoWorld \<lparr> versionsPatch := (\<lambda>tr version status. Inr ''CREATED'') \<rparr>"

definition walkFailWorld :: world where
  "walkFailWorld = demoWorld \<lparr> walkDir := (\<lambda>root.
       [dirVisit ''.'', (fileVisit ''index.html'' []) \<lparr> v_open := Some ''permission denied'' \<rparr>]) \<rparr>"

definition noConfigWorld :: world where
  "noConfigWorld = demoWorld \<lparr> osReadFile := (\<lambda>f. Inl ''no such file or directory'') \<rparr>"

definition dupWorld :: world where
  "dupWorld = demoWorld \<lparr>
       walkDir := (\<lambda>root. [dirVisit ''.'', fileVisit ''a.html'' [0x48, 0x69],
                            fileVisit ''b.html'' [0x48, 0x69]]),
       populateFiles := (\<lambda>tr version fs. Inr ([''5d05'', ''5d05''], ''https://up'')) \<rparr>"

definition demoServingConf :: ServingConfig where
  "demoServingConf = \<lparr> CleanUrls = True, TrailingSlashBehavior = [], sc_Headers = [], sc_Redirects = [] \<rparr>"


section \<open>Auxiliary facts\<close>

lemma walkFn_Inr:
  "walkFn L v acc = Inr acc' \<Longrightarrow> acc' = (if v_isDir v then acc else addFile L v acc)"
  by (auto simp: walkFn_def contentHash_def addFile_def Let_def split: option.splits if_splits)

lemma walk_fold:
  "walk L vs acc = Inr acc' \<Longrightarrow> acc' = fold (addFile L) (files vs) acc"
proof (induction vs arbitrary: acc)
  case Nil
  then show ?case by (simp add: files_def)
next
  case (Cons v vs)
  from Cons.prems obtain a where a: "walkFn L v acc = Inr a" and w: "walk L vs a = Inr acc'"
    by (auto split: sum.splits)
  have "a = (if v_isDir v then acc else addFile L v acc)" by (rule walkFn_Inr [OF a])
  with Cons.IH [OF w] show ?case
    by (simp add: files_def)
qed

lemma addFile_ran_dom:
  assumes "ran (fst acc) \<subseteq> dom (snd acc)"
  shows "ran (fst (addFile L v acc)) \<subseteq> dom (snd (addFile L v acc))"
proof
  fix h assume "h \<in> ran (fst (addFile L v acc))"
  then obtain k where "fst (addFile L v acc) k = Some h" by (auto simp: ran_def)
  then have "h = contentHash L (v_data v) \<or> fst acc k = Some h"
    by (auto simp: addFile_def split: if_splits)
  then have "h = contentHash L (v_data v) \<or> h \<in> dom (snd acc)"
    using assms by (auto simp: ran_def)
  then show "h \<in> dom (snd (addFile L v acc))"
    by (auto simp: addFile_def)
qed

lemma fold_addFile_ran_dom:
  "ran (fst acc) \<subseteq> dom (snd acc) \<Longrightarrow>
   ran (fst (fold (addFile L) fs acc)) \<subseteq> dom (snd (fold (addFile L) fs acc))"
  by (induction fs arbitrary: acc) (simp_all add: addFile_ran_dom)

lemma readFiles_Inr:
  "readFiles L W fbConf = Inr r \<Longrightarrow>
   r = fold (addFile L) (files (walkDir W (Public (Hosting fbConf)))) (Map.empty, Map.empty)"
  by (auto simp: readFiles_def split: sum.splits dest: walk_fold)

lemma fold_addFile_other:
  "k \<notin> fileKey ` set fs \<Longrightarrow> fst (fold (addFile L) fs acc) k = fst acc k"
  by (induction fs arbitrary: acc) (auto simp: addFile_def fileKey_def)

lemma fold_addFile_lookup:
  "v \<in> set fs \<Longrightarrow> distinct (map v_path fs) \<Longrightarrow>
   fst (fold (addFile L) fs acc) (fileKey v) = Some (contentHash L (v_data v))"
proof (induction fs arbitrary: acc)
  case Nil
  then show ?case by simp
next
  case (Cons w fs)
  show ?case
  proof (cases "v \<in> set fs")
    case True
    with Cons show ?thesis by simp
  next
    case False
    with Cons.prems have vw: "v = w" by simp
    from Cons.prems(2) have "fileKey w \<notin> fileKey ` set fs"
      by (auto simp: fileKey_def)
    then have "fst (fold (addFile L) fs (addFile L w acc)) (fileKey w) = fst (addFile L w acc) (fileKey w)"
      by (rule fold_addFile_other)
    moreover have "fst (addFile L w acc) (fileKey w) = Some (contentHash L (v_data w))"
      by (simp add: addFile_def fileKey_def)
    ultimately show ?thesis using vw by simp
  qed
qed

lemma fold_addFile_origin:
  "fst (fold (addFile L) fs acc) k = Some h \<Longrightarrow>
   (\<exists>v\<in>set fs. k = fileKey v \<and> h = contentHash L (v_data v)) \<or> fst acc k = Some h"
proof (induction fs arbitrary: acc)
  case Nil
  then show ?case by simp
next
  case (Cons w fs)
  from Cons.prems have "fst (fold (addFile L) fs (addFile L w acc)) k = Some h" by simp
  from Cons.IH [OF this] show ?case
    by (auto simp: addFile_def fileKey_def split: if_splits)
qed

lemma unat_hi_nibble: "unat (drop_bit 4 (v :: byte)) < 16"
proof -
  have "unat v < 256" using unsigned_less [of v] by simp
  then have "unat v div 16 < 16" by simp
  moreover have "unat (drop_bit 4 v) = unat v div 16"
    by (simp add: drop_bit_eq_div unat_div)
  ultimately show ?thesis by (simp only:)
qed

lemma nibble_mask: "(15 :: byte) = mask 4"
  by (simp add: mask_eq_exp_minus_1)

lemma unat_lo_nibble: "unat ((v :: byte) AND 0x0f) < 16"
proof -
  have "v AND 0x0f = take_bit 4 v"
    by (simp only: nibble_mask take_bit_eq_mask)
  then have "unat (v AND 0x0f) = take_bit 4 (unat v)"
    by (simp only: unsigned_take_bit_eq)
  also have "\<dots> = unat v mod 2 ^ 4"
    by (rule take_bit_eq_mod)
  finally show ?thesis by simp
qed

lemma hextable_nth: "i < 16 \<Longrightarrow> hextable ! i \<in> set ''0123456789abcdef''"
proof -
  assume "i < 16"
  then have "i < length hextable" by (simp add: hextable_def)
  then have "hextable ! i \<in> set hextable" by (rule nth_mem)
  then show ?thesis by (simp add: hextable_def)
qed

lemma hexEncodeToString_lower: "set (hexEncodeToString bs) \<subseteq> set ''0123456789abcdef''"
proof (induction bs)
  case Nil
  show ?case by simp
next
  case (Cons v bs)
  have "hextable ! unat (drop_bit 4 v) \<in> set ''0123456789abcdef''"
    by (rule hextable_nth [OF unat_hi_nibble])
  moreover have "hextable ! unat (v AND 0x0f) \<in> set ''0123456789abcdef''"
    by (rule hextable_nth [OF unat_lo_nibble])
  ultimately show ?case using Cons.IH by simp
qed

lemma hexEncodeToString_length: "length (hexEncodeToString bs) = 2 * length bs"
  by (induction bs) simp_all

lemma readFiles_manifest:
  assumes "readFiles L W fbConf = Inr (m, s)"
  shows "m = fst (fold (addFile L) (files (walkDir W (Public (Hosting fbConf)))) (Map.empty, Map.empty))"
proof -
  have "fst (m, s) = fst (fold (addFile L) (files (walkDir W (Public (Hosting fbConf)))) (Map.empty, Map.empty))"
    by (rule arg_cong [OF readFiles_Inr [OF assms]])
  then show ?thesis by (simp only: fst_conv)
qed

lemma manifest_transfer:
  assumes r1: "readFiles L W1 fbConf = Inr (m1, s1)"
      and r2: "readFiles L W2 fbConf = Inr (m2, s2)"
      and d2: "distinct (map v_path (files (walkDir W2 (Public (Hosting fbConf)))))"
      and sn: "snapshot (walkDir W1 (Public (Hosting fbConf))) = snapshot (walkDir W2 (Public (Hosting fbConf)))"
      and k: "m1 k = Some h"
  shows "m2 k = Some h"
proof -
  let ?f1 = "files (walkDir W1 (Public (Hosting fbConf)))"
  let ?f2 = "files (walkDir W2 (Public (Hosting fbConf)))"
  have "fst (fold (addFile L) ?f1 (Map.empty, Map.empty)) k = Some h"
    using k unfolding readFiles_manifest [OF r1] .
  from fold_addFile_origin [OF this]
  obtain v where v: "v \<in> set ?f1" "k = fileKey v" "h = contentHash L (v_data v)" by auto
  from v(1) have "(v_path v, v_data v) \<in> snapshot (walkDir W1 (Public (Hosting fbConf)))"
    unfolding snapshot_def by (rule imageI)
  then have "(v_path v, v_data v) \<in> snapshot (walkDir W2 (Public (Hosting fbConf)))"
    by (simp only: sn)
  then obtain w where w: "w \<in> set ?f2" "v_path w = v_path v" "v_data w = v_data v"
    unfolding snapshot_def by auto
  have "m2 (fileKey w) = Some (contentHash L (v_data w))"
    unfolding readFiles_manifest [OF r2] by (rule fold_addFile_lookup [OF w(1) d2])
  moreover have "fileKey w = k" by (simp only: v(2) w(2) fileKey_def)
  moreover have "contentHash L (v_data w) = h" by (simp only: v(3) w(3))
  ultimately show ?thesis by (simp only:)
qed

lemma uploadOne_cases:
  assumes "uploadOne W url h tr st = (r, tr', st')"
  obtains (NoRequest) e where "newRequest W (url @ ''/'' @ h) = Some e"
            "r = Some (CreateRequestErr h e)" "tr' = tr" "st' = st"
        | (Sent) n res where "newRequest W (url @ ''/'' @ h) = None"
            "httpDo W tr (url @ ''/'' @ h) (st h) = (n, res)"
            "tr' = tr @ [HttpPost (url @ ''/'' @ h) (st h) n res]"
            "st' = drain st h n" "r = uploadResult h res"
proof (cases "newRequest W (url @ ''/'' @ h)")
  case (Some e)
  with assms have "r = Some (CreateRequestErr h e)" "tr' = tr" "st' = st"
    by (simp_all add: uploadOne_def)
  with Some show ?thesis by (rule NoRequest)
next
  case None
  obtain n res where d: "httpDo W tr (url @ ''/'' @ h) (st h) = (n, res)"
    by (cases "httpDo W tr (url @ ''/'' @ h) (st h)")
  from assms None d have "tr' = tr @ [HttpPost (url @ ''/'' @ h) (st h) n res]"
    by (simp add: uploadOne_def Let_def split: do_result.splits if_splits)
  moreover from assms None d have "st' = drain st h n"
    by (auto simp: uploadOne_def Let_def drain_def split: do_result.splits if_splits option.splits)
  moreover from assms None d have "r = uploadResult h res"
    by (auto simp: uploadOne_def Let_def uploadResult_def split: do_result.splits if_splits)
  ultimately show ?thesis using None d by (intro Sent)
qed

lemma uploadResult_None: "uploadResult h res = None \<longleftrightarrow> (\<exists>status. res = Response 200 status)"
  by (cases res) (auto simp: uploadResult_def)

lemma uploadLoop_Cons_cases:
  assumes "uploadLoop W url (h # hs) tr st = (r, tr', st')"
  obtains (NoRequest) e where "newRequest W (url @ ''/'' @ h) = Some e"
            "r = Some (CreateRequestErr h e)" "tr' = tr" "st' = st"
        | (Failed) n res e where "httpDo W tr (url @ ''/'' @ h) (st h) = (n, res)"
            "uploadResult h res = Some e" "r = Some e"
            "tr' = tr @ [HttpPost (url @ ''/'' @ h) (st h) n res]" "st' = drain st h n"
        | (Next) n status where "newRequest W (url @ ''/'' @ h) = None"
            "httpDo W tr (url @ ''/'' @ h) (st h) = (n, Response 200 status)"
            "uploadLoop W url hs (tr @ [HttpPost (url @ ''/'' @ h) (st h) n (Response 200 status)]) (drain st h n)
               = (r, tr', st')"
proof -
  obtain r1 tr1 st1 where one: "uploadOne W url h tr st = (r1, tr1, st1)"
    by (cases "uploadOne W url h tr st") auto
  from one show ?thesis
  proof (cases rule: uploadOne_cases)
    case (NoRequest e)
    with assms one show ?thesis by (intro that(1) [of e]) simp_all
  next
    case (Sent n res)
    show ?thesis
    proof (cases "uploadResult h res")
      case None
      then obtain status where res: "res = Response 200 status" by (auto simp: uploadResult_None)
      from assms one Sent None have "uploadLoop W url hs tr1 st1 = (r, tr', st')" by simp
      with Sent res show ?thesis by (intro that(3) [of n status]) simp_all
    next
      case (Some e)
      with assms one Sent show ?thesis by (intro that(2) [of n res e]) simp_all
    qed
  qed
qed

lemma drain_other: "h' \<noteq> h \<Longrightarrow> drain st h n h' = st h'"
  by (simp add: drain_def split: option.splits)

lemma drain_None: "st h' = None \<Longrightarrow> drain st h n h' = None"
  by (cases "h' = h") (simp_all add: drain_def split: option.splits)

lemma uploadResult_kinds:
  "uploadResult h res = Some e \<Longrightarrow>
     (\<exists>c. res = DoError c \<and> e = UploadErr h c) \<or>
     (\<exists>code status. res = Response code status \<and> code \<noteq> 200 \<and> e = UnexpectedUploadResponse h status)"
  by (cases res) (auto simp: uploadResult_def split: if_splits)

lemma uploadLoop_trace:
  "uploadLoop W url hs tr st = (r, tr', st') \<Longrightarrow> \<exists>new. tr' = tr @ new \<and> list_all isPost new"
proof (induction hs arbitrary: tr st)
  case Nil
  then show ?case by simp
next
  case (Cons h hs)
  from Cons.prems show ?case
  proof (cases rule: uploadLoop_Cons_cases)
    case (NoRequest e)
    then show ?thesis by simp
  next
    case (Failed n res e)
    then show ?thesis by simp
  next
    case (Next n status)
    from Cons.IH [OF Next(3)] obtain new where
      "tr' = (tr @ [HttpPost (url @ ''/'' @ h) (st h) n (Response 200 status)]) @ new" "list_all isPost new"
      by blast
    then have "tr' = tr @ (HttpPost (url @ ''/'' @ h) (st h) n (Response 200 status) # new)
               \<and> list_all isPost (HttpPost (url @ ''/'' @ h) (st h) n (Response 200 status) # new)"
      by simp
    then show ?thesis by blast
  qed
qed

lemma uploadLoop_success:
  "uploadLoop W url hs tr st = (None, tr @ new, st') \<Longrightarrow> list_all answered200 new"
proof (induction hs arbitrary: tr st new)
  case Nil
  then show ?case by simp
next
  case (Cons h hs)
  from Cons.prems show ?case
  proof (cases rule: uploadLoop_Cons_cases)
    case (NoRequest e)
    then show ?thesis by simp
  next
    case (Failed n res e)
    then show ?thesis by simp
  next
    case (Next n status)
    let ?e = "HttpPost (url @ ''/'' @ h) (st h) n (Response 200 status)"
    from uploadLoop_trace [OF Next(3)] obtain new' where n': "tr @ new = (tr @ [?e]) @ new'" by blast
    then have new: "new = ?e # new'" by simp
    from Next(3) n' have "uploadLoop W url hs (tr @ [?e]) (drain st h n) = (None, (tr @ [?e]) @ new', st')"
      by simp
    from Cons.IH [OF this] show ?thesis using new by simp
  qed
qed

lemma uploadLoop_posts:
  "uploadLoop W url hs tr st = (None, tr @ new, st') \<Longrightarrow> distinct hs \<Longrightarrow>
   map postOf new = map (\<lambda>h. Some (url @ ''/'' @ h, st h)) hs"
proof (induction hs arbitrary: tr st new)
  case Nil
  then show ?case by simp
next
  case (Cons h hs)
  from Cons.prems(1) show ?case
  proof (cases rule: uploadLoop_Cons_cases)
    case (NoRequest e)
    then show ?thesis by simp
  next
    case (Failed n res e)
    then show ?thesis by simp
  next
    case (Next n status)
    let ?e = "HttpPost (url @ ''/'' @ h) (st h) n (Response 200 status)"
    from uploadLoop_trace [OF Next(3)] obtain new' where n': "tr @ new = (tr @ [?e]) @ new'" by blast
    then have new: "new = ?e # new'" by simp
    from Next(3) n' have "uploadLoop W url hs (tr @ [?e]) (drain st h n) = (None, (tr @ [?e]) @ new', st')"
      by simp
    moreover from Cons.prems(2) have "distinct hs" by simp
    ultimately have "map postOf new' = map (\<lambda>h'. Some (url @ ''/'' @ h', drain st h n h')) hs"
      by (rule Cons.IH)
    also have "\<dots> = map (\<lambda>h'. Some (url @ ''/'' @ h', st h')) hs"
    proof (rule map_cong [OF refl])
      fix h' assume "h' \<in> set hs"
      with Cons.prems(2) have "h' \<noteq> h" by auto
      then show "Some (url @ ''/'' @ h', drain st h n h') = Some (url @ ''/'' @ h', st h')"
        by (simp add: drain_other)
    qed
    finally show ?thesis using new by simp
  qed
qed

lemma uploadLoop_count:
  "uploadLoop W url hs tr st = (r, tr @ new, st') \<Longrightarrow>
   length (filter (isPostTo (url @ ''/'' @ g)) new) \<le> count_list hs g"
proof (induction hs arbitrary: tr st new)
  case Nil
  then show ?case by simp
next
  case (Cons h hs)
  from Cons.prems(1) show ?case
  proof (cases rule: uploadLoop_Cons_cases)
    case (NoRequest e)
    then show ?thesis by simp
  next
    case (Failed n res e)
    then show ?thesis by simp
  next
    case (Next n status)
    let ?e = "HttpPost (url @ ''/'' @ h) (st h) n (Response 200 status)"
    from uploadLoop_trace [OF Next(3)] obtain new' where n': "tr @ new = (tr @ [?e]) @ new'" by blast
    then have new: "new = ?e # new'" by simp
    from Next(3) n' have "uploadLoop W url hs (tr @ [?e]) (drain st h n) = (r, (tr @ [?e]) @ new', st')"
      by simp
    from Cons.IH [OF this] show ?thesis using new by simp
  qed
qed

lemma uploadLoop_count_success:
  "uploadLoop W url hs tr st = (None, tr @ new, st') \<Longrightarrow>
   length (filter (isPostTo (url @ ''/'' @ g)) new) = count_list hs g"
proof (induction hs arbitrary: tr st new)
  case Nil
  then show ?case by simp
next
  case (Cons h hs)
  from Cons.prems(1) show ?case
  proof (cases rule: uploadLoop_Cons_cases)
    case (NoRequest e)
    then show ?thesis by simp
  next
    case (Failed n res e)
    then show ?thesis by simp
  next
    case (Next n status)
    let ?e = "HttpPost (url @ ''/'' @ h) (st h) n (Response 200 status)"
    from uploadLoop_trace [OF Next(3)] obtain new' where n': "tr @ new = (tr @ [?e]) @ new'" by blast
    then have new: "new = ?e # new'" by simp
    from Next(3) n' have "uploadLoop W url hs (tr @ [?e]) (drain st h n) = (None, (tr @ [?e]) @ new', st')"
      by simp
    from Cons.IH [OF this] show ?thesis using new by simp
  qed
qed

lemma uploadLoop_bad:
  "uploadLoop W url hs tr st = (r, tr @ pre @ HttpPost ep body n (Response code status) # post, st') \<Longrightarrow>
   code \<noteq> 200 \<Longrightarrow>
   post = [] \<and> list_all answered200 pre \<and>
   (\<exists>h\<in>set hs. ep = url @ ''/'' @ h \<and> r = Some (UnexpectedUploadResponse h status))"
proof (induction hs arbitrary: tr st pre)
  case Nil
  then show ?case by simp
next
  case (Cons h hs)
  let ?bad = "HttpPost ep body n (Response code status)"
  from Cons.prems(1) show ?case
  proof (cases rule: uploadLoop_Cons_cases)
    case (NoRequest e)
    then show ?thesis by simp
  next
    case (Failed m res e)
    from Failed(4) have "pre @ ?bad # post = [HttpPost (url @ ''/'' @ h) (st h) m res]" by simp
    then have "pre = []" "post = []" "?bad = HttpPost (url @ ''/'' @ h) (st h) m res"
      by (simp_all add: append_eq_Cons_conv)
    with Failed(2,3) Cons.prems(2) show ?thesis
      by (auto simp: uploadResult_def)
  next
    case (Next m s)
    let ?e = "HttpPost (url @ ''/'' @ h) (st h) m (Response 200 s)"
    from uploadLoop_trace [OF Next(3)] obtain new' where n': "tr @ pre @ ?bad # post = (tr @ [?e]) @ new'" by blast
    then have eq: "pre @ ?bad # post = ?e # new'" by simp
    with Cons.prems(2) obtain pre' where pre: "pre = ?e # pre'" "new' = pre' @ ?bad # post"
      by (cases pre) auto
    from Next(3) pre have "uploadLoop W url hs (tr @ [?e]) (drain st h m) = (r, (tr @ [?e]) @ pre' @ ?bad # post, st')"
      by simp
    from Cons.IH [OF this Cons.prems(2)] pre(1) show ?thesis by auto
  qed
qed

lemma uploadLoop_missing:
  "uploadLoop W url hs tr st = (r, tr @ new, st') \<Longrightarrow>
   \<forall>h\<in>set hs. newRequest W (url @ ''/'' @ h) = None \<and>
       (\<forall>t b. \<exists>s. snd (httpDo W t (url @ ''/'' @ h) b) = Response 200 s) \<Longrightarrow>
   r = None \<and> (\<forall>g\<in>set hs. st g = None \<longrightarrow>
        (\<exists>k s. HttpPost (url @ ''/'' @ g) None k (Response 200 s) \<in> set new))"
proof (induction hs arbitrary: tr st new)
  case Nil
  then show ?case by simp
next
  case (Cons h hs)
  from Cons.prems(2) have ok: "newRequest W (url @ ''/'' @ h) = None"
      "\<And>t b. \<exists>s. snd (httpDo W t (url @ ''/'' @ h) b) = Response 200 s" by simp_all
  from Cons.prems(1) show ?case
  proof (cases rule: uploadLoop_Cons_cases)
    case (NoRequest e)
    with ok show ?thesis by simp
  next
    case (Failed m res e)
    from ok(2) [of tr "st h"] Failed(1) obtain s where "res = Response 200 s" by auto
    with Failed(2) show ?thesis by (simp add: uploadResult_def)
  next
    case (Next m s)
    let ?e = "HttpPost (url @ ''/'' @ h) (st h) m (Response 200 s)"
    from uploadLoop_trace [OF Next(3)] obtain new' where n': "tr @ new = (tr @ [?e]) @ new'" by blast
    then have new: "new = ?e # new'" by simp
    from Next(3) n' have run': "uploadLoop W url hs (tr @ [?e]) (drain st h m) = (r, (tr @ [?e]) @ new', st')"
      by simp
    from Cons.prems(2) have "\<forall>h\<in>set hs. newRequest W (url @ ''/'' @ h) = None \<and>
       (\<forall>t b. \<exists>s. snd (httpDo W t (url @ ''/'' @ h) b) = Response 200 s)" by simp
    from Cons.IH [OF run' this] have r: "r = None"
      and rest: "\<And>g. g \<in> set hs \<Longrightarrow> drain st h m g = None \<Longrightarrow>
                  \<exists>k s. HttpPost (url @ ''/'' @ g) None k (Response 200 s) \<in> set new'"
      by blast+
    have "\<exists>k s. HttpPost (url @ ''/'' @ g) None k (Response 200 s) \<in> set new"
      if g: "g \<in> set (h # hs)" "st g = None" for g
    proof (cases "g = h")
      case True
      with g(2) new show ?thesis by auto
    next
      case False
      with g(1) have "g \<in> set hs" by simp
      moreover from g(2) have "drain st h m g = None" by (rule drain_None)
      ultimately show ?thesis using rest new by fastforce
    qed
    with r show ?thesis by blast
  qed
qed

lemma uploadFiles_cases:
  assumes "uploadFiles W version hs url st tr = (res, tr')"
  obtains (LoopFailed) e new st' where "uploadLoop W url hs tr st = (Some e, tr @ new, st')"
            "res = Some e" "tr' = tr @ new" "list_all isPost new"
        | (Patched) new st' r where "uploadLoop W url hs tr st = (None, tr @ new, st')"
            "list_all answered200 new"
            "r = versionsPatch W (tr @ new) version ''FINALIZED''"
            "tr' = tr @ new @ [VersionsPatch version ''FINALIZED'' r]"
            "res = finalizeResult version r"
proof -
  obtain r1 tr1 st1 where loop: "uploadLoop W url hs tr st = (r1, tr1, st1)"
    by (cases "uploadLoop W url hs tr st") auto
  from uploadLoop_trace [OF loop] obtain new where new: "tr1 = tr @ new" "list_all isPost new"
    by blast
  show ?thesis
  proof (cases r1)
    case (Some e)
    with assms loop new have "res = Some e" "tr' = tr @ new"
      by (simp_all add: uploadFiles_def)
    with loop new Some show ?thesis by (intro LoopFailed [of e new st1]) simp_all
  next
    case None
    with loop new have l: "uploadLoop W url hs tr st = (None, tr @ new, st1)" by simp
    then have ok: "list_all answered200 new" by (rule uploadLoop_success)
    from assms l have "tr' = tr @ new @ [VersionsPatch version ''FINALIZED'' (versionsPatch W (tr @ new) version ''FINALIZED'')]"
      by (auto simp: uploadFiles_def Let_def split: sum.splits if_splits)
    moreover from assms l have "res = finalizeResult version (versionsPatch W (tr @ new) version ''FINALIZED'')"
      by (auto simp: uploadFiles_def Let_def finalizeResult_def split: sum.splits if_splits)
    ultimately show ?thesis using l ok by (intro Patched [of new st1]) simp_all
  qed
qed

lemma createVersion_Inl:
  "createVersion W c tr = (Inl e, tr') \<Longrightarrow>
   \<exists>cause. e = CreateVersionErr (''sites/'' @ Site (Hosting c)) cause \<and>
     tr' = tr @ [VersionsCreate (''sites/'' @ Site (Hosting c)) (servingConf c) (Inl cause)]"
  by (auto simp: createVersion_def Let_def split: sum.splits)

lemma createVersion_Inr:
  "createVersion W c tr = (Inr v, tr') \<Longrightarrow>
   tr' = tr @ [VersionsCreate (''sites/'' @ Site (Hosting c)) (servingConf c) (Inr v)]"
  by (auto simp: createVersion_def Let_def split: sum.splits)

lemma getRequiredUploads_Inl:
  "getRequiredUploads W v m tr = (Inl e, tr') \<Longrightarrow>
   \<exists>cause. e = RequiredUploadsErr v cause \<and> tr' = tr @ [VersionsPopulateFiles v m (Inl cause)]"
  by (auto simp: getRequiredUploads_def Let_def split: sum.splits)

lemma getRequiredUploads_Inr:
  "getRequiredUploads W v m tr = (Inr resp, tr') \<Longrightarrow>
   tr' = tr @ [VersionsPopulateFiles v m (Inr resp)]"
  by (auto simp: getRequiredUploads_def Let_def split: sum.splits)

lemma release_eq:
  "release W site v tr = (res, tr') \<Longrightarrow>
   tr' = tr @ [ReleasesCreate site v (releasesCreate W tr site v)] \<and>
   (res = None \<or> (\<exists>cause. res = Some (ReleaseErr v cause)))"
  by (auto simp: release_def Let_def split: option.splits)

lemma readFiles_Inl:
  "readFiles L W c = Inl e \<Longrightarrow> \<exists>inner. e = WalkErr (Public (Hosting c)) inner"
  by (auto simp: readFiles_def split: sum.splits)

lemma readConfig_Inl:
  "readConfig L W f = Inl e \<Longrightarrow> \<exists>cause. e = ReadConfigErr f cause \<or> e = UnmarshalErr f cause"
  by (auto simp: readConfig_def split: sum.splits)

lemma run_cases:
  assumes "run L W = (res, tr)"
  obtains (Config) e where "readConfig L W ''firebase.json'' = Inl e" "res = Some e" "tr = []"
  | (Client) c e where "readConfig L W ''firebase.json'' = Inr c"
      "res = Some (HttpClientErr e) \<or> res = Some (FirebaseClientErr e)" "tr = []"
  | (Create) c e where "readConfig L W ''firebase.json'' = Inr c"
      "createVersion W c [] = (Inl e, tr)" "res = Some e"
  | (Walk) c v e where "readConfig L W ''firebase.json'' = Inr c"
      "createVersion W c [] = (Inr v, tr)" "readFiles L W c = Inl e" "res = Some e"
  | (Populate) c v tr1 m s e where "readConfig L W ''firebase.json'' = Inr c"
      "createVersion W c [] = (Inr v, tr1)" "readFiles L W c = Inr (m, s)"
      "getRequiredUploads W v m tr1 = (Inl e, tr)" "res = Some e"
  | (Upload) c v tr1 m s hs url tr2 e where "readConfig L W ''firebase.json'' = Inr c"
      "createVersion W c [] = (Inr v, tr1)" "readFiles L W c = Inr (m, s)"
      "getRequiredUploads W v m tr1 = (Inr (hs, url), tr2)"
      "uploadFiles W v hs url s tr2 = (Some e, tr)" "res = Some e"
  | (Release) c v tr1 m s hs url tr2 tr3 where "readConfig L W ''firebase.json'' = Inr c"
      "createVersion W c [] = (Inr v, tr1)" "readFiles L W c = Inr (m, s)"
      "getRequiredUploads W v m tr1 = (Inr (hs, url), tr2)"
      "uploadFiles W v hs url s tr2 = (None, tr3)"
      "release W (''sites/'' @ Site (Hosting c)) v tr3 = (res, tr)"
proof (cases "readConfig L W ''firebase.json''")
  case (Inl e)
  with assms show ?thesis by (intro Config [of e]) (simp_all add: run_def)
next
  case (Inr c)
  note cfg = this
  show ?thesis
  proof (cases "defaultClient W")
    case (Some e)
    with assms cfg show ?thesis by (intro Client [of c e]) (simp_all add: run_def)
  next
    case None
    note dc = this
    show ?thesis
    proof (cases "newService W")
      case (Some e)
      with assms cfg dc show ?thesis by (intro Client [of c e]) (simp_all add: run_def)
    next
      case None
      note ns = this
      obtain x tr1 where cv: "createVersion W c [] = (x, tr1)" by (cases "createVersion W c []")
      show ?thesis
      proof (cases x)
        case (Inl e)
        with assms cfg dc ns cv show ?thesis by (intro Create [of c e]) (simp_all add: run_def)
      next
        case (Inr v)
        note ver = this
        show ?thesis
        proof (cases "readFiles L W c")
          case (Inl e)
          with assms cfg dc ns cv ver show ?thesis by (intro Walk [of c v e]) (simp_all add: run_def)
        next
          case (Inr ms)
          obtain m s where ms: "ms = (m, s)" by (cases ms)
          note rf = Inr [unfolded ms]
          obtain y tr2 where gr: "getRequiredUploads W v m tr1 = (y, tr2)"
            by (cases "getRequiredUploads W v m tr1")
          show ?thesis
          proof (cases y)
            case (Inl e)
            with assms cfg dc ns cv ver rf gr show ?thesis
              by (intro Populate [of c v tr1 m s e]) (simp_all add: run_def)
          next
            case (Inr resp)
            obtain hs url where resp: "resp = (hs, url)" by (cases resp)
            note pop = gr [unfolded Inr resp]
            obtain z tr3 where uf: "uploadFiles W v hs url s tr2 = (z, tr3)"
              by (cases "uploadFiles W v hs url s tr2")
            show ?thesis
            proof (cases z)
              case (Some e)
              with assms cfg dc ns cv ver rf pop uf show ?thesis
                by (intro Upload [of c v tr1 m s hs url tr2 e]) (simp_all add: run_def)
            next
              case None
              with assms cfg dc ns cv ver rf pop uf show ?thesis
                by (intro Release [of c v tr1 m s hs url tr2 tr3]) (simp_all add: run_def)
            qed
          qed
        qed
      qed
    qed
  qed
qed

lemma map_filter_all_Some:
  "map f xs = map (\<lambda>y. Some (g y)) ys \<Longrightarrow> List.map_filter f xs = map g ys"
proof (induction xs arbitrary: ys)
  case Nil
  then show ?case by (simp add: map_filter_simps)
next
  case (Cons x xs)
  then obtain y ys' where "ys = y # ys'" "f x = Some (g y)" "map f xs = map (\<lambda>y. Some (g y)) ys'"
    by (cases ys) auto
  with Cons.IH [of ys'] show ?case by (simp add: map_filter_simps)
qed

lemma uploads_append: "uploads (xs @ ys) = uploads xs @ uploads ys"
  by (simp add: uploads_def map_filter_def)

lemma count_list_distinct: "distinct xs \<Longrightarrow> x \<in> set xs \<Longrightarrow> count_list xs x = 1"
  by (induction xs) auto

lemma isPost_not_patch: "list_all isPost new \<Longrightarrow> VersionsPatch v s r \<notin> set new"
  by (auto simp: list_all_iff)

lemma isPost_not_release: "list_all isPost new \<Longrightarrow> ReleasesCreate site v r \<notin> set new"
  by (auto simp: list_all_iff)

lemma answered200_isPost: "answered200 e \<Longrightarrow> isPost e"
  by (cases e) simp_all

lemma answered200_list_isPost: "list_all answered200 new \<Longrightarrow> list_all isPost new"
  by (auto simp: list_all_iff answered200_isPost)

lemma finalizeResult_None: "finalizeResult v r = None \<longleftrightarrow> r = Inr ''FINALIZED''"
  by (cases r) (simp_all add: finalizeResult_def)

lemma finalizeResult_status:
  "status \<noteq> ''FINALIZED'' \<Longrightarrow> finalizeResult v (Inr status) = Some (UnexpectedFinalizationStatus status)"
  by (simp add: finalizeResult_def)

lemma finalizeResult_kinds:
  "finalizeResult v r = Some e \<Longrightarrow>
     (\<exists>c. e = FinalizeErr v c) \<or> (\<exists>s. e = UnexpectedFinalizationStatus s)"
  by (cases r) (auto simp: finalizeResult_def split: if_splits)

lemma uploadLoop_error_kinds:
  "uploadLoop W url hs tr st = (Some e, tr', st') \<Longrightarrow>
     (\<exists>h c. e = CreateRequestErr h c) \<or> (\<exists>h c. e = UploadErr h c) \<or>
     (\<exists>h s. e = UnexpectedUploadResponse h s)"
proof (induction hs arbitrary: tr st)
  case Nil
  then show ?case by simp
next
  case (Cons h hs)
  from Cons.prems show ?case
  proof (cases rule: uploadLoop_Cons_cases)
    case (NoRequest c)
    then show ?thesis by simp
  next
    case (Failed n res e')
    with uploadResult_kinds [OF Failed(2)] show ?thesis by auto
  next
    case (Next n status)
    from Next(3) show ?thesis by (rule Cons.IH)
  qed
qed

lemma uploadFiles_error_kinds:
  assumes "uploadFiles W v hs url st tr = (Some e, tr')"
  shows "(\<exists>h c. e = CreateRequestErr h c) \<or> (\<exists>h c. e = UploadErr h c) \<or>
     (\<exists>h s. e = UnexpectedUploadResponse h s) \<or> (\<exists>c. e = FinalizeErr v c) \<or>
     (\<exists>s. e = UnexpectedFinalizationStatus s)"
  using assms
proof (cases rule: uploadFiles_cases)
  case (LoopFailed e' new st')
  with uploadLoop_error_kinds [OF LoopFailed(1)] show ?thesis by auto
next
  case (Patched new st' r)
  from Patched(5) have "finalizeResult v r = Some e" by simp
  from finalizeResult_kinds [OF this] show ?thesis by auto
qed

text \<open>The trace of a run, by the stage at which the run ended.\<close>

lemma uploadFiles_None:
  assumes "uploadFiles W v hs url st tr = (None, tr')"
  obtains new where "tr' = tr @ new @ [VersionsPatch v ''FINALIZED'' (Inr ''FINALIZED'')]"
    "list_all answered200 new"
  using assms
proof (cases rule: uploadFiles_cases)
  case (LoopFailed e new st')
  then show ?thesis by simp
next
  case (Patched new st' r)
  from Patched(5) have "finalizeResult v r = None" by simp
  then have "r = Inr ''FINALIZED''" by (simp add: finalizeResult_None)
  with Patched(2,4) show ?thesis by (intro that [of new]) simp_all
qed

lemma uploadFiles_Some:
  assumes "uploadFiles W v hs url st tr = (Some e, tr')"
  obtains (Uploading) new where "tr' = tr @ new" "list_all isPost new"
        | (Finalizing) new r where "tr' = tr @ new @ [VersionsPatch v ''FINALIZED'' r]"
            "list_all answered200 new" "r \<noteq> Inr ''FINALIZED''" "finalizeResult v r = Some e"
  using assms
proof (cases rule: uploadFiles_cases)
  case (LoopFailed e' new st')
  then show ?thesis by (intro Uploading [of new]) simp_all
next
  case (Patched new st' r)
  from Patched(5) have f: "finalizeResult v r = Some e" by simp
  then have "r \<noteq> Inr ''FINALIZED''" by (auto simp: finalizeResult_def)
  with Patched(2,4) f show ?thesis by (intro Finalizing [of new r]) simp_all
qed

section \<open>The catalog: readFiles\<close>

lemmas demo_defs = demoWorld_def demoWorld2_def demoConf_def demoLib_def fileVisit_def dirVisit_def

lemma readFiles_demo:
  "readFiles demoLib demoWorld demoConf =
     Inr ([''/index.html'' \<mapsto> ''5d05'', ''/secret.txt'' \<mapsto> ''1b04''],
          [''5d05'' \<mapsto> [0x1f, 0x8b, 0x48, 0x69, 2], ''1b04'' \<mapsto> [0x1f, 0x8b, 0x70, 1]])"
  by (simp add: readFiles_def walkFn_def Let_def gzipStream_def hextable_def demo_defs)

lemma readFiles_demo2:
  "readFiles demoLib demoWorld2 demoConf =
     Inr ([''/secret.txt'' \<mapsto> ''1b04'', ''/index.html'' \<mapsto> ''5d05''],
          [''1b04'' \<mapsto> [0x1f, 0x8b, 0x70, 1], ''5d05'' \<mapsto> [0x1f, 0x8b, 0x48, 0x69, 2]])"
  by (simp add: readFiles_def walkFn_def Let_def gzipStream_def hextable_def demo_defs)

lemma files_demo:
  "files (walkDir demoWorld (Public (Hosting demoConf)))
     = [fileVisit ''index.html'' [0x48, 0x69], fileVisit ''secret.txt'' [0x70]]"
  by (simp add: files_def demo_defs)

lemma files_demo2:
  "files (walkDir demoWorld2 (Public (Hosting demoConf)))
     = [fileVisit ''secret.txt'' [0x70], fileVisit ''index.html'' [0x48, 0x69]]"
  by (simp add: files_def demo_defs)

text \<open>
  C7. After a successful \<open>readFiles\<close>, every hash that the manifest gives to some path is
  a key of the content store.
\<close>

theorem readFiles_manifest_in_store:
  assumes "readFiles L W fbConf = Inr (pathToHash, hashToGzip)"
      and "pathToHash p = Some h"
  shows "h \<in> dom hashToGzip"
proof -
  have "ran (fst (pathToHash, hashToGzip)) \<subseteq> dom (snd (pathToHash, hashToGzip))"
    unfolding readFiles_Inr [OF assms(1)] by (rule fold_addFile_ran_dom) simp
  with assms(2) show ?thesis by (auto simp: ran_def)
qed

theorem readFiles_manifest_in_store_witness:
  "readFiles demoLib demoWorld demoConf =
     Inr ([''/index.html'' \<mapsto> ''5d05'', ''/secret.txt'' \<mapsto> ''1b04''],
          [''5d05'' \<mapsto> [0x1f, 0x8b, 0x48, 0x69, 2], ''1b04'' \<mapsto> [0x1f, 0x8b, 0x70, 1]])
   \<and> [''/index.html'' \<mapsto> ''5d05'', ''/secret.txt'' \<mapsto> ''1b04''] ''/index.html'' = Some ''5d05''
   \<and> ''5d05'' \<in> dom [''5d05'' \<mapsto> [0x1f, 0x8b, 0x48, 0x69, 2 :: byte], ''1b04'' \<mapsto> [0x1f, 0x8b, 0x70, 1]]"
proof -
  have p: "[''/index.html'' \<mapsto> ''5d05'', ''/secret.txt'' \<mapsto> ''1b04''] ''/index.html'' = Some ''5d05''"
    by simp
  from readFiles_manifest_in_store [OF readFiles_demo p] readFiles_demo p show ?thesis
    by (intro conjI)
qed

text \<open>
  C5. For every regular file the walk visits, the hash recorded in the manifest under
  \<open>/\<close> followed by its path is the hex encoding of the SHA-256 digest of the whole gzip
  stream of its content, that is of what the writer emitted while the content was copied
  followed by what closing the writer emitted; the encoding uses only the characters
  \<open>0123456789abcdef\<close>.
\<close>

theorem readFiles_hash_is_sha256_of_gzip:
  assumes "readFiles L W fbConf = Inr (pathToHash, hashToGzip)"
      and "v \<in> set (files (walkDir W (Public (Hosting fbConf))))"
      and "distinct (map v_path (files (walkDir W (Public (Hosting fbConf)))))"
  shows "pathToHash (''/'' @ v_path v)
           = Some (hexEncodeToString (sha256Sum256 L (gzipWrite L (v_data v) @ gzipClose L (v_data v))))
         \<and> set (hexEncodeToString (sha256Sum256 L (gzipWrite L (v_data v) @ gzipClose L (v_data v))))
           \<subseteq> set ''0123456789abcdef''"
proof (rule conjI)
  have "pathToHash (fileKey v) = Some (contentHash L (v_data v))"
    unfolding readFiles_manifest [OF assms(1)] by (rule fold_addFile_lookup [OF assms(2,3)])
  then show "pathToHash (''/'' @ v_path v)
           = Some (hexEncodeToString (sha256Sum256 L (gzipWrite L (v_data v) @ gzipClose L (v_data v))))"
    by (simp only: fileKey_def contentHash_def gzipStream_def)
next
  show "set (hexEncodeToString (sha256Sum256 L (gzipWrite L (v_data v) @ gzipClose L (v_data v))))
           \<subseteq> set ''0123456789abcdef''"
    by (rule hexEncodeToString_lower)
qed

theorem readFiles_hash_is_sha256_of_gzip_witness:
  "readFiles demoLib demoWorld demoConf =
     Inr ([''/index.html'' \<mapsto> ''5d05'', ''/secret.txt'' \<mapsto> ''1b04''],
          [''5d05'' \<mapsto> [0x1f, 0x8b, 0x48, 0x69, 2], ''1b04'' \<mapsto> [0x1f, 0x8b, 0x70, 1]])
   \<and> fileVisit ''index.html'' [0x48, 0x69] \<in> set (files (walkDir demoWorld (Public (Hosting demoConf))))
   \<and> distinct (map v_path (files (walkDir demoWorld (Public (Hosting demoConf)))))
   \<and> [''/index.html'' \<mapsto> ''5d05'', ''/secret.txt'' \<mapsto> ''1b04''] ''/index.html''
       = Some (hexEncodeToString (sha256Sum256 demoLib (gzipWrite demoLib [0x48, 0x69] @ gzipClose demoLib [0x48, 0x69])))
   \<and> hexEncodeToString (sha256Sum256 demoLib (gzipWrite demoLib [0x48, 0x69] @ gzipClose demoLib [0x48, 0x69])) = ''5d05''"
proof -
  have v: "fileVisit ''index.html'' [0x48, 0x69] \<in> set (files (walkDir demoWorld (Public (Hosting demoConf))))"
    by (simp add: files_demo)
  have d: "distinct (map v_path (files (walkDir demoWorld (Public (Hosting demoConf)))))"
    by (simp add: files_demo fileVisit_def)
  have p: "''/'' @ v_path (fileVisit ''index.html'' [0x48, 0x69]) = ''/index.html''"
      "v_data (fileVisit ''index.html'' [0x48, 0x69]) = [0x48, 0x69]"
    by (simp_all add: fileVisit_def)
  have h: "hexEncodeToString (sha256Sum256 demoLib (gzipWrite demoLib [0x48, 0x69] @ gzipClose demoLib [0x48, 0x69])) = ''5d05''"
    by (simp add: demoLib_def hextable_def)
  from readFiles_hash_is_sha256_of_gzip [OF readFiles_demo v d, unfolded p]
  have "[''/index.html'' \<mapsto> ''5d05'', ''/secret.txt'' \<mapsto> ''1b04''] ''/index.html''
       = Some (hexEncodeToString (sha256Sum256 demoLib (gzipWrite demoLib [0x48, 0x69] @ gzipClose demoLib [0x48, 0x69])))"
    by (rule conjunct1)
  with readFiles_demo v d h show ?thesis by (intro conjI)
qed

text \<open>
  C8. Two catalog builds with the same configuration that see the same directory
  snapshot (the same files with the same content, each file once, in whatever order)
  return the same manifest.
\<close>

theorem readFiles_deterministic:
  assumes r1: "readFiles L W1 fbConf = Inr (m1, s1)"
      and r2: "readFiles L W2 fbConf = Inr (m2, s2)"
      and d1: "distinct (map v_path (files (walkDir W1 (Public (Hosting fbConf)))))"
      and d2: "distinct (map v_path (files (walkDir W2 (Public (Hosting fbConf)))))"
      and sn: "snapshot (walkDir W1 (Public (Hosting fbConf))) = snapshot (walkDir W2 (Public (Hosting fbConf)))"
  shows "m1 = m2"
proof
  fix k
  show "m1 k = m2 k"
  proof (cases "m1 k")
    case (Some h)
    with manifest_transfer [OF r1 r2 d2 sn] show ?thesis by simp
  next
    case None
    show ?thesis
    proof (cases "m2 k")
      case (Some h)
      with manifest_transfer [OF r2 r1 d1 sn [symmetric]] have "m1 k = Some h" by simp
      with None show ?thesis by simp
    next
      case n2: None
      with None show ?thesis by simp
    qed
  qed
qed

theorem readFiles_deterministic_witness:
  "readFiles demoLib demoWorld demoConf =
     Inr ([''/index.html'' \<mapsto> ''5d05'', ''/secret.txt'' \<mapsto> ''1b04''],
          [''5d05'' \<mapsto> [0x1f, 0x8b, 0x48, 0x69, 2], ''1b04'' \<mapsto> [0x1f, 0x8b, 0x70, 1]])
   \<and> readFiles demoLib demoWorld2 demoConf =
     Inr ([''/secret.txt'' \<mapsto> ''1b04'', ''/index.html'' \<mapsto> ''5d05''],
          [''1b04'' \<mapsto> [0x1f, 0x8b, 0x70, 1], ''5d05'' \<mapsto> [0x1f, 0x8b, 0x48, 0x69, 2]])
   \<and> distinct (map v_path (files (walkDir demoWorld (Public (Hosting demoConf)))))
   \<and> distinct (map v_path (files (walkDir demoWorld2 (Public (Hosting demoConf)))))
   \<and> snapshot (walkDir demoWorld (Public (Hosting demoConf)))
       = snapshot (walkDir demoWorld2 (Public (Hosting demoConf)))
   \<and> [''/index.html'' \<mapsto> ''5d05'', ''/secret.txt'' \<mapsto> ''1b04'']
       = [''/secret.txt'' \<mapsto> ''1b04'', ''/index.html'' \<mapsto> ''5d05'']"
proof -
  have d1: "distinct (map v_path (files (walkDir demoWorld (Public (Hosting demoConf)))))"
    by (simp add: files_demo fileVisit_def)
  have d2: "distinct (map v_path (files (walkDir demoWorld2 (Public (Hosting demoConf)))))"
    by (simp add: files_demo2 fileVisit_def)
  have sn: "snapshot (walkDir demoWorld (Public (Hosting demoConf)))
       = snapshot (walkDir demoWorld2 (Public (Hosting demoConf)))"
    unfolding snapshot_def files_demo files_demo2 by (simp add: insert_commute)
  from readFiles_deterministic [OF readFiles_demo readFiles_demo2 d1 d2 sn]
    readFiles_demo readFiles_demo2 d1 d2 sn
  show ?thesis by (intro conjI)
qed

text \<open>
  C1. The catalog build never looks at the ignore patterns. Here the configuration
  ignores \<open>secret.txt\<close>, the directory holds a file of that name, and the file is read,
  compressed and hashed all the same: it is a key of the manifest and its hash is a key
  of the content store.
\<close>

theorem readFiles_keeps_ignored_file:
  "Ignore (Hosting demoConf) = [''secret.txt'']
   \<and> fileVisit ''secret.txt'' [0x70] \<in> set (walkDir demoWorld (Public (Hosting demoConf)))
   \<and> (\<exists>pathToHash hashToGzip.
         readFiles demoLib demoWorld demoConf = Inr (pathToHash, hashToGzip)
         \<and> pathToHash ''/secret.txt'' = Some ''1b04''
         \<and> hashToGzip ''1b04'' = Some [0x1f, 0x8b, 0x70, 1])"
proof -
  have "Ignore (Hosting demoConf) = [''secret.txt'']" by (simp add: demoConf_def)
  moreover have "fileVisit ''secret.txt'' [0x70] \<in> set (walkDir demoWorld (Public (Hosting demoConf)))"
    by (simp add: demoWorld_def)
  moreover have "[''/index.html'' \<mapsto> ''5d05'', ''/secret.txt'' \<mapsto> ''1b04''] ''/secret.txt'' = Some ''1b04''"
    by simp
  moreover have "[''5d05'' \<mapsto> [0x1f, 0x8b, 0x48, 0x69, 2 :: byte], ''1b04'' \<mapsto> [0x1f, 0x8b, 0x70, 1]] ''1b04''
      = Some [0x1f, 0x8b, 0x70, 1]"
    by simp
  ultimately show ?thesis using readFiles_demo by blast
qed

lemma readFiles_Ignore_irrelevant:
  "readFiles L W (fbConf\<lparr>Hosting := (Hosting fbConf)\<lparr>Ignore := patterns\<rparr>\<rparr>) = readFiles L W fbConf"
  by (simp add: readFiles_def split: sum.splits)

section \<open>Uploading and finalizing: uploadFiles\<close>

lemma uploadFiles_demo_two:
  "uploadFiles demoWorld ''v1'' [''5d05'', ''1b04''] ''https://up'' demoStore [] =
     (None, [] @ [HttpPost ''https://up/5d05'' (Some [0x1f, 0x8b, 0x48, 0x69, 2]) 5 (Response 200 ''200 OK''),
            HttpPost ''https://up/1b04'' (Some [0x1f, 0x8b, 0x70, 1]) 4 (Response 200 ''200 OK''),
            VersionsPatch ''v1'' ''FINALIZED'' (Inr ''FINALIZED'')])"
  by (simp add: uploadFiles_def uploadOne_def Let_def demoWorld_def demoStore_def)

lemma uploadFiles_demo_twice:
  "uploadFiles demoWorld ''v1'' [''5d05'', ''5d05''] ''https://up'' demoStore [] =
     (None, [HttpPost ''https://up/5d05'' (Some [0x1f, 0x8b, 0x48, 0x69, 2]) 5 (Response 200 ''200 OK''),
            HttpPost ''https://up/5d05'' (Some []) 0 (Response 200 ''200 OK''),
            VersionsPatch ''v1'' ''FINALIZED'' (Inr ''FINALIZED'')])"
  by (simp add: uploadFiles_def uploadOne_def Let_def demoWorld_def demoStore_def)

lemma uploadFiles_demo_missing:
  "uploadFiles demoWorld ''v1'' [''ffff''] ''https://up'' demoStore [] =
     (None, [] @ [HttpPost ''https://up/ffff'' None 0 (Response 200 ''200 OK''),
            VersionsPatch ''v1'' ''FINALIZED'' (Inr ''FINALIZED'')])"
  by (simp add: uploadFiles_def uploadOne_def Let_def demoWorld_def demoStore_def)

lemma uploadFiles_failing:
  "uploadFiles failingWorld ''v1'' [''5d05'', ''1b04'', ''ffff''] ''https://up'' demoStore [] =
     (Some (UnexpectedUploadResponse ''1b04'' ''500 Internal Server Error''),
      [] @ [HttpPost ''https://up/5d05'' (Some [0x1f, 0x8b, 0x48, 0x69, 2]) 0 (Response 200 ''200 OK'')]
         @ HttpPost ''https://up/1b04'' (Some [0x1f, 0x8b, 0x70, 1]) 0 (Response 500 ''500 Internal Server Error'') # [])"
  by (simp add: uploadFiles_def uploadOne_def Let_def failingWorld_def demoWorld_def demoStore_def)

text \<open>
  C2, as the code has it. \<open>uploadFiles\<close> posts once for each entry of the list it is
  given, so a hash is sent as often as the list names it. When the list has no
  duplicates, no hash is sent more than once; when moreover every upload succeeds, so
  that the finalize call is reached, the uploads are exactly one POST for each hash of
  the list, in order, to the upload URL followed by \<open>/\<close> and the hash, with the content
  store's bytes for that hash as body.
\<close>

theorem uploadFiles_each_hash_once:
  assumes "uploadFiles W version toUpload uploadURL hashToGzip tr0 = (res, tr0 @ new)"
      and "distinct toUpload"
  shows "(\<forall>h\<in>set toUpload. length (filter (isPostTo (uploadURL @ ''/'' @ h)) new) \<le> 1)
       \<and> ((\<exists>r. VersionsPatch version ''FINALIZED'' r \<in> set new) \<longrightarrow>
            uploads new = map (\<lambda>h. (uploadURL @ ''/'' @ h, hashToGzip h)) toUpload
          \<and> (\<forall>h\<in>set toUpload. length (filter (isPostTo (uploadURL @ ''/'' @ h)) new) = 1))"
  using assms(1)
proof (cases rule: uploadFiles_cases)
  case (LoopFailed e new' st')
  from LoopFailed(3) have new: "new = new'" by simp
  have "length (filter (isPostTo (uploadURL @ ''/'' @ h)) new) \<le> 1" if "h \<in> set toUpload" for h
  proof -
    have "length (filter (isPostTo (uploadURL @ ''/'' @ h)) new') \<le> count_list toUpload h"
      by (rule uploadLoop_count [OF LoopFailed(1)])
    with count_list_distinct [OF assms(2) that] new show ?thesis by simp
  qed
  moreover have "\<not> (\<exists>r. VersionsPatch version ''FINALIZED'' r \<in> set new)"
    using isPost_not_patch [OF LoopFailed(4)] new by simp
  ultimately show ?thesis by blast
next
  case (Patched new' st' r)
  from Patched(4) have new: "new = new' @ [VersionsPatch version ''FINALIZED'' r]" by simp
  have cnt: "length (filter (isPostTo (uploadURL @ ''/'' @ h)) new) = 1" if "h \<in> set toUpload" for h
  proof -
    have "length (filter (isPostTo (uploadURL @ ''/'' @ h)) new') = count_list toUpload h"
      by (rule uploadLoop_count_success [OF Patched(1)])
    with count_list_distinct [OF assms(2) that] new show ?thesis by simp
  qed
  have "map postOf new' = map (\<lambda>h. Some (uploadURL @ ''/'' @ h, hashToGzip h)) toUpload"
    by (rule uploadLoop_posts [OF Patched(1) assms(2)])
  then have "List.map_filter postOf new' = map (\<lambda>h. (uploadURL @ ''/'' @ h, hashToGzip h)) toUpload"
    by (rule map_filter_all_Some)
  then have "uploads new = map (\<lambda>h. (uploadURL @ ''/'' @ h, hashToGzip h)) toUpload"
    by (simp add: new uploads_append) (simp add: uploads_def map_filter_simps)
  with cnt show ?thesis by simp
qed

theorem uploadFiles_each_hash_once_witness:
  "uploadFiles demoWorld ''v1'' [''5d05'', ''1b04''] ''https://up'' demoStore [] =
     (None, [] @ [HttpPost ''https://up/5d05'' (Some [0x1f, 0x8b, 0x48, 0x69, 2]) 5 (Response 200 ''200 OK''),
            HttpPost ''https://up/1b04'' (Some [0x1f, 0x8b, 0x70, 1]) 4 (Response 200 ''200 OK''),
            VersionsPatch ''v1'' ''FINALIZED'' (Inr ''FINALIZED'')])
   \<and> distinct [''5d05'', ''1b04'']
   \<and> VersionsPatch ''v1'' ''FINALIZED'' (Inr ''FINALIZED'')
       \<in> set [HttpPost ''https://up/5d05'' (Some [0x1f, 0x8b, 0x48, 0x69, 2]) 5 (Response 200 ''200 OK''),
            HttpPost ''https://up/1b04'' (Some [0x1f, 0x8b, 0x70, 1]) 4 (Response 200 ''200 OK''),
            VersionsPatch ''v1'' ''FINALIZED'' (Inr ''FINALIZED'')]
   \<and> uploads [HttpPost ''https://up/5d05'' (Some [0x1f, 0x8b, 0x48, 0x69, 2]) 5 (Response 200 ''200 OK''),
            HttpPost ''https://up/1b04'' (Some [0x1f, 0x8b, 0x70, 1]) 4 (Response 200 ''200 OK''),
            VersionsPatch ''v1'' ''FINALIZED'' (Inr ''FINALIZED'')]
       = map (\<lambda>h. (''https://up'' @ ''/'' @ h, demoStore h)) [''5d05'', ''1b04'']
   \<and> ''5d05'' \<in> set [''5d05'', ''1b04'']
   \<and> length (filter (isPostTo (''https://up'' @ ''/'' @ ''5d05''))
         [HttpPost ''https://up/5d05'' (Some [0x1f, 0x8b, 0x48, 0x69, 2]) 5 (Response 200 ''200 OK''),
            HttpPost ''https://up/1b04'' (Some [0x1f, 0x8b, 0x70, 1]) 4 (Response 200 ''200 OK''),
            VersionsPatch ''v1'' ''FINALIZED'' (Inr ''FINALIZED'')]) = 1"
proof -
  have d: "distinct [''5d05'', ''1b04'']" by simp
  have p: "\<exists>r. VersionsPatch ''v1'' ''FINALIZED'' r
       \<in> set [HttpPost ''https://up/5d05'' (Some [0x1f, 0x8b, 0x48, 0x69, 2]) 5 (Response 200 ''200 OK''),
            HttpPost ''https://up/1b04'' (Some [0x1f, 0x8b, 0x70, 1]) 4 (Response 200 ''200 OK''),
            VersionsPatch ''v1'' ''FINALIZED'' (Inr ''FINALIZED'')]"
    by simp
  have m: "''5d05'' \<in> set [''5d05'', ''1b04'']" by simp
  note t = uploadFiles_each_hash_once [OF uploadFiles_demo_two d]
  from t p have u: "uploads [HttpPost ''https://up/5d05'' (Some [0x1f, 0x8b, 0x48, 0x69, 2]) 5 (Response 200 ''200 OK''),
            HttpPost ''https://up/1b04'' (Some [0x1f, 0x8b, 0x70, 1]) 4 (Response 200 ''200 OK''),
            VersionsPatch ''v1'' ''FINALIZED'' (Inr ''FINALIZED'')]
       = map (\<lambda>h. (''https://up'' @ ''/'' @ h, demoStore h)) [''5d05'', ''1b04'']"
    by blast
  from t p m have c: "length (filter (isPostTo (''https://up'' @ ''/'' @ ''5d05''))
         [HttpPost ''https://up/5d05'' (Some [0x1f, 0x8b, 0x48, 0x69, 2]) 5 (Response 200 ''200 OK''),
            HttpPost ''https://up/1b04'' (Some [0x1f, 0x8b, 0x70, 1]) 4 (Response 200 ''200 OK''),
            VersionsPatch ''v1'' ''FINALIZED'' (Inr ''FINALIZED'')]) = 1"
    by blast
  have "VersionsPatch ''v1'' ''FINALIZED'' (Inr ''FINALIZED'')
       \<in> set [HttpPost ''https://up/5d05'' (Some [0x1f, 0x8b, 0x48, 0x69, 2]) 5 (Response 200 ''200 OK''),
            HttpPost ''https://up/1b04'' (Some [0x1f, 0x8b, 0x70, 1]) 4 (Response 200 ''200 OK''),
            VersionsPatch ''v1'' ''FINALIZED'' (Inr ''FINALIZED'')]"
    by simp
  with uploadFiles_demo_two d u m c show ?thesis by (intro conjI)
qed

text \<open>
  C2 as stated fails in two ways. When the list returned by reconciliation names a hash
  twice, the hash is posted twice, the second time with the buffer the first upload has
  already read to its end. When an upload is refused, the hashes after it in the list are
  not posted at all.
\<close>

theorem uploadFiles_repeats_listed_hash:
  "uploadFiles demoWorld ''v1'' [''5d05'', ''5d05''] ''https://up'' demoStore [] =
     (None, [HttpPost ''https://up/5d05'' (Some [0x1f, 0x8b, 0x48, 0x69, 2]) 5 (Response 200 ''200 OK''),
            HttpPost ''https://up/5d05'' (Some []) 0 (Response 200 ''200 OK''),
            VersionsPatch ''v1'' ''FINALIZED'' (Inr ''FINALIZED'')])
   \<and> length (filter (isPostTo ''https://up/5d05'')
         (snd (uploadFiles demoWorld ''v1'' [''5d05'', ''5d05''] ''https://up'' demoStore []))) = 2
   \<and> length (filter (isPostTo ''https://up/ffff'')
         (snd (uploadFiles failingWorld ''v1'' [''5d05'', ''1b04'', ''ffff''] ''https://up'' demoStore []))) = 0"
  by (simp add: uploadFiles_demo_twice uploadFiles_failing)

text \<open>
  If an upload made by \<open>uploadFiles\<close> is answered with a status other than 200, that
  upload is the last call of the function: everything before it is an upload answered
  200, nothing follows it (no further upload, no finalize call), and the error returned
  names the hash of that upload and the status of the response.
\<close>

lemma uploadFiles_aborts_on_bad_status:
  assumes "uploadFiles W version toUpload uploadURL hashToGzip tr0
             = (res, tr0 @ pre @ HttpPost ep body n (Response code status) # post)"
      and "code \<noteq> 200"
  shows "post = [] \<and> list_all answered200 pre
       \<and> (\<forall>v s r. VersionsPatch v s r \<notin> set (pre @ HttpPost ep body n (Response code status) # post))
       \<and> (\<exists>h\<in>set toUpload. ep = uploadURL @ ''/'' @ h \<and> res = Some (UnexpectedUploadResponse h status))"
  using assms(1)
proof (cases rule: uploadFiles_cases)
  case (LoopFailed e new st')
  from LoopFailed(3) have "new = pre @ HttpPost ep body n (Response code status) # post" by simp
  with LoopFailed(1) have "uploadLoop W uploadURL toUpload tr0 hashToGzip
      = (Some e, tr0 @ pre @ HttpPost ep body n (Response code status) # post, st')" by simp
  from uploadLoop_bad [OF this assms(2)] LoopFailed(2)
  have a: "post = []" "list_all answered200 pre"
    "\<exists>h\<in>set toUpload. ep = uploadURL @ ''/'' @ h \<and> res = Some (UnexpectedUploadResponse h status)"
    by auto
  from a(2) have "list_all isPost pre" by (rule answered200_list_isPost)
  then have "\<forall>v s r. VersionsPatch v s r \<notin> set (pre @ HttpPost ep body n (Response code status) # post)"
    using a(1) by (auto simp: list_all_iff)
  with a show ?thesis by blast
next
  case (Patched new st' r)
  from Patched(4) have eq: "pre @ HttpPost ep body n (Response code status) # post
      = new @ [VersionsPatch version ''FINALIZED'' r]" by simp
  have "HttpPost ep body n (Response code status) \<in> set (pre @ HttpPost ep body n (Response code status) # post)"
    by simp
  then have "HttpPost ep body n (Response code status) \<in> set new"
    unfolding eq by simp
  with Patched(2) have "answered200 (HttpPost ep body n (Response code status))"
    unfolding list_all_iff by (rule bspec)
  with assms(2) show ?thesis by simp
qed

lemma uploadFiles_aborts_on_bad_status_example:
  "uploadFiles failingWorld ''v1'' [''5d05'', ''1b04'', ''ffff''] ''https://up'' demoStore [] =
     (Some (UnexpectedUploadResponse ''1b04'' ''500 Internal Server Error''),
      [] @ [HttpPost ''https://up/5d05'' (Some [0x1f, 0x8b, 0x48, 0x69, 2]) 0 (Response 200 ''200 OK'')]
         @ HttpPost ''https://up/1b04'' (Some [0x1f, 0x8b, 0x70, 1]) 0 (Response 500 ''500 Internal Server Error'') # [])
   \<and> (500::int) \<noteq> 200
   \<and> list_all answered200 [HttpPost ''https://up/5d05'' (Some [0x1f, 0x8b, 0x48, 0x69, 2]) 0 (Response 200 ''200 OK'')]
   \<and> (\<exists>h\<in>set [''5d05'', ''1b04'', ''ffff'']. ''https://up/1b04'' = ''https://up'' @ ''/'' @ h
         \<and> Some (UnexpectedUploadResponse ''1b04'' ''500 Internal Server Error'')
             = Some (UnexpectedUploadResponse h ''500 Internal Server Error''))"
proof -
  have c: "(500::int) \<noteq> 200" by simp
  from uploadFiles_aborts_on_bad_status [OF uploadFiles_failing c] uploadFiles_failing c
  show ?thesis by blast
qed

text \<open>
  C10. A required hash that is not a key of the content store makes the lookup give the
  nil reader, and nothing checks for it. If every request of the list can be built and
  the server answers each upload with 200, then \<open>uploadFiles\<close> posts to the endpoint of
  that hash with no body, gets through the whole list and goes on to the finalize call.
\<close>

theorem uploadFiles_posts_nil_body:
  assumes "uploadFiles W version toUpload uploadURL hashToGzip tr0 = (res, tr0 @ new)"
      and "h \<in> set toUpload"
      and "hashToGzip h = None"
      and "\<forall>g\<in>set toUpload. newRequest W (uploadURL @ ''/'' @ g) = None \<and>
             (\<forall>t b. \<exists>s. snd (httpDo W t (uploadURL @ ''/'' @ g) b) = Response 200 s)"
  shows "(\<exists>k s. HttpPost (uploadURL @ ''/'' @ h) None k (Response 200 s) \<in> set new)
       \<and> (\<exists>r. last new = VersionsPatch version ''FINALIZED'' r)
       \<and> res = finalizeResult version (versionsPatch W (tr0 @ butlast new) version ''FINALIZED'')"
  using assms(1)
proof (cases rule: uploadFiles_cases)
  case (LoopFailed e new' st')
  from uploadLoop_missing [OF LoopFailed(1) assms(4)] show ?thesis by simp
next
  case (Patched new' st' r)
  from Patched(4) have new: "new = new' @ [VersionsPatch version ''FINALIZED'' r]" by simp
  from uploadLoop_missing [OF Patched(1) assms(4)] assms(2,3)
  have "\<exists>k s. HttpPost (uploadURL @ ''/'' @ h) None k (Response 200 s) \<in> set new'" by blast
  with new Patched(3,5) show ?thesis by auto
qed

theorem uploadFiles_posts_nil_body_witness:
  "uploadFiles demoWorld ''v1'' [''ffff''] ''https://up'' demoStore [] =
     (None, [] @ [HttpPost ''https://up/ffff'' None 0 (Response 200 ''200 OK''),
            VersionsPatch ''v1'' ''FINALIZED'' (Inr ''FINALIZED'')])
   \<and> ''ffff'' \<in> set [''ffff'']
   \<and> demoStore ''ffff'' = None
   \<and> newRequest demoWorld (''https://up'' @ ''/'' @ ''ffff'') = None
   \<and> (\<forall>t b. \<exists>s. snd (httpDo demoWorld t (''https://up'' @ ''/'' @ ''ffff'') b) = Response 200 s)
   \<and> (\<exists>k s. HttpPost (''https://up'' @ ''/'' @ ''ffff'') None k (Response 200 s)
         \<in> set [HttpPost ''https://up/ffff'' None 0 (Response 200 ''200 OK''),
                VersionsPatch ''v1'' ''FINALIZED'' (Inr ''FINALIZED'')])"
proof -
  have m: "''ffff'' \<in> set [''ffff'']" by simp
  have n: "demoStore ''ffff'' = None" by (simp add: demoStore_def)
  have w: "\<forall>g\<in>set [''ffff'']. newRequest demoWorld (''https://up'' @ ''/'' @ g) = None \<and>
             (\<forall>t b. \<exists>s. snd (httpDo demoWorld t (''https://up'' @ ''/'' @ g) b) = Response 200 s)"
    by (simp add: demoWorld_def)
  from w have w1: "newRequest demoWorld (''https://up'' @ ''/'' @ ''ffff'') = None"
    and w2: "\<forall>t b. \<exists>s. snd (httpDo demoWorld t (''https://up'' @ ''/'' @ ''ffff'') b) = Response 200 s"
    by simp_all
  from uploadFiles_posts_nil_body [OF uploadFiles_demo_missing m n w]
  have "\<exists>k s. HttpPost (''https://up'' @ ''/'' @ ''ffff'') None k (Response 200 s)
         \<in> set [HttpPost ''https://up/ffff'' None 0 (Response 200 ''200 OK''),
                VersionsPatch ''v1'' ''FINALIZED'' (Inr ''FINALIZED'')]"
    by (rule conjunct1)
  with uploadFiles_demo_missing m n w1 w2 show ?thesis by (intro conjI)
qed

section \<open>The whole run\<close>

lemmas run_defs = run_def readConfig_def createVersion_def servingConf_def readFiles_def walkFn_def
  gzipStream_def hextable_def getRequiredUploads_def uploadFiles_def uploadOne_def release_def Let_def

lemma run_demo:
  "run demoLib demoWorld =
     (None, [VersionsCreate ''sites/demo'' demoServingConf (Inr ''v1''),
             VersionsPopulateFiles ''v1'' [''/index.html'' \<mapsto> ''5d05'', ''/secret.txt'' \<mapsto> ''1b04'']
               (Inr ([''5d05''], ''https://up'')),
             HttpPost ''https://up/5d05'' (Some [0x1f, 0x8b, 0x48, 0x69, 2]) 5 (Response 200 ''200 OK''),
             VersionsPatch ''v1'' ''FINALIZED'' (Inr ''FINALIZED''),
             ReleasesCreate ''sites/demo'' ''v1'' None])"
  by (simp add: run_defs demo_defs demoServingConf_def)

lemma run_notFinal:
  "run demoLib notFinalWorld =
     (Some (UnexpectedFinalizationStatus ''CREATED''),
      [VersionsCreate ''sites/demo'' demoServingConf (Inr ''v1''),
             VersionsPopulateFiles ''v1'' [''/index.html'' \<mapsto> ''5d05'', ''/secret.txt'' \<mapsto> ''1b04'']
               (Inr ([''5d05''], ''https://up'')),
             HttpPost ''https://up/5d05'' (Some [0x1f, 0x8b, 0x48, 0x69, 2]) 5 (Response 200 ''200 OK''),
             VersionsPatch ''v1'' ''FINALIZED'' (Inr ''CREATED'')])"
  by (simp add: run_defs demo_defs demoServingConf_def notFinalWorld_def)

lemma run_walkFail:
  "run demoLib walkFailWorld =
     (Some (WalkErr ''public'' (OpenErr ''index.html'' ''permission denied'')),
      [VersionsCreate ''sites/demo'' demoServingConf (Inr ''v1'')])"
  by (simp add: run_defs demo_defs demoServingConf_def walkFailWorld_def)

lemma run_noConfig:
  "run demoLib noConfigWorld =
     (Some (ReadConfigErr ''firebase.json'' ''no such file or directory''), [])"
  by (simp add: run_defs demo_defs noConfigWorld_def)

lemma readFiles_dup:
  "readFiles demoLib dupWorld demoConf =
     Inr ([''/a.html'' \<mapsto> ''5d05'', ''/b.html'' \<mapsto> ''5d05''],
          [''5d05'' \<mapsto> [0x1f, 0x8b, 0x48, 0x69, 2]])"
  by (simp add: readFiles_def walkFn_def Let_def gzipStream_def hextable_def demo_defs dupWorld_def)

lemma run_dup:
  "run demoLib dupWorld =
     (None, [VersionsCreate ''sites/demo'' demoServingConf (Inr ''v1''),
             VersionsPopulateFiles ''v1'' [''/a.html'' \<mapsto> ''5d05'', ''/b.html'' \<mapsto> ''5d05'']
               (Inr ([''5d05'', ''5d05''], ''https://up'')),
             HttpPost ''https://up/5d05'' (Some [0x1f, 0x8b, 0x48, 0x69, 2]) 5 (Response 200 ''200 OK''),
             HttpPost ''https://up/5d05'' (Some []) 0 (Response 200 ''200 OK''),
             VersionsPatch ''v1'' ''FINALIZED'' (Inr ''FINALIZED''),
             ReleasesCreate ''sites/demo'' ''v1'' None])"
  by (simp add: run_defs demo_defs demoServingConf_def dupWorld_def)

lemma isPost_isStaging: "isPost e \<Longrightarrow> isStaging e"
  by (cases e) simp_all

lemma run_shape:
  assumes "run L W = (res, tr)"
  obtains (Staging) "list_all isStaging tr"
  | (NotFinalized) pre v r where "tr = pre @ [VersionsPatch v ''FINALIZED'' r]"
      "list_all isStaging pre" "r \<noteq> Inr ''FINALIZED''" "res = finalizeResult v r"
  | (Released) pre v site r where
      "tr = pre @ [VersionsPatch v ''FINALIZED'' (Inr ''FINALIZED''), ReleasesCreate site v r]"
      "list_all isStaging pre"
  using assms
proof (cases rule: run_cases)
  case (Config e)
  then show ?thesis by (intro Staging) simp
next
  case (Client c e)
  then show ?thesis by (intro Staging) simp
next
  case (Create c e)
  from createVersion_Inl [OF Create(2)] show ?thesis by (intro Staging) auto
next
  case (Walk c v e)
  from createVersion_Inr [OF Walk(2)] show ?thesis by (intro Staging) simp
next
  case (Populate c v tr1 m s e)
  from createVersion_Inr [OF Populate(2)] getRequiredUploads_Inl [OF Populate(4)]
  show ?thesis by (intro Staging) auto
next
  case (Upload c v tr1 m s hs url tr2 e)
  from createVersion_Inr [OF Upload(2)] getRequiredUploads_Inr [OF Upload(4)]
  have tr2: "list_all isStaging tr2" by simp
  from Upload(5) show ?thesis
  proof (cases rule: uploadFiles_Some)
    case (Uploading new)
    with tr2 show ?thesis by (intro Staging) (auto simp: list_all_iff isPost_isStaging)
  next
    case (Finalizing new r)
    from Finalizing(2) have "list_all isStaging (tr2 @ new)"
      using tr2 by (auto simp: list_all_iff isPost_isStaging answered200_isPost)
    with Finalizing Upload(6) show ?thesis
      by (intro NotFinalized [of "tr2 @ new" v r]) simp_all
  qed
next
  case (Release c v tr1 m s hs url tr2 tr3)
  from createVersion_Inr [OF Release(2)] getRequiredUploads_Inr [OF Release(4)]
  have tr2: "list_all isStaging tr2" by simp
  from Release(5) obtain new where new: "tr3 = tr2 @ new @ [VersionsPatch v ''FINALIZED'' (Inr ''FINALIZED'')]"
    "list_all answered200 new" by (rule uploadFiles_None)
  from new(2) have "list_all isStaging (tr2 @ new)"
    using tr2 by (auto simp: list_all_iff isPost_isStaging answered200_isPost)
  moreover from release_eq [OF Release(6)] new(1)
  have "tr = (tr2 @ new) @ [VersionsPatch v ''FINALIZED'' (Inr ''FINALIZED''),
      ReleasesCreate (''sites/'' @ Site (Hosting c)) v (releasesCreate W tr3 (''sites/'' @ Site (Hosting c)) v)]"
    by simp
  ultimately show ?thesis by (intro Released [of "tr2 @ new" v]) simp_all
qed

lemma isStaging_not_release: "list_all isStaging xs \<Longrightarrow> ReleasesCreate site v r \<notin> set xs"
  by (auto simp: list_all_iff)

lemma isStaging_not_patch: "list_all isStaging xs \<Longrightarrow> VersionsPatch v s r \<notin> set xs"
  by (auto simp: list_all_iff)

text \<open>
  C3. In the calls of a run, a release creation comes only right after a finalize call
  that returned exactly the status FINALIZED. If a finalize call of the run returned any
  other status, the run ends with the error about the unexpected finalization status and
  has created no release.
\<close>

theorem release_only_after_finalized:
  assumes "run L W = (res, tr)"
  shows "(ReleasesCreate site v r \<in> set tr \<longrightarrow>
            (\<exists>pre. tr = pre @ [VersionsPatch v ''FINALIZED'' (Inr ''FINALIZED''), ReleasesCreate site v r]))
       \<and> (VersionsPatch v' st (Inr status) \<in> set tr \<and> status \<noteq> ''FINALIZED'' \<longrightarrow>
            res = Some (UnexpectedFinalizationStatus status)
            \<and> (\<forall>site' v'' r'. ReleasesCreate site' v'' r' \<notin> set tr))"
  using assms
proof (cases rule: run_shape)
  case Staging
  then show ?thesis by (simp add: isStaging_not_release isStaging_not_patch)
next
  case (NotFinalized pre v0 r0)
  from NotFinalized(2) have np: "\<And>a b c. VersionsPatch a b c \<notin> set pre"
      and nr: "\<And>a b c. ReleasesCreate a b c \<notin> set pre"
    by (simp_all add: isStaging_not_release isStaging_not_patch)
  have "res = Some (UnexpectedFinalizationStatus status)"
    if "VersionsPatch v' st (Inr status) \<in> set tr" "status \<noteq> ''FINALIZED''"
  proof -
    from that(1) NotFinalized(1) np have "r0 = Inr status" by auto
    with NotFinalized(4) that(2) show ?thesis by (simp add: finalizeResult_status)
  qed
  with NotFinalized(1) nr show ?thesis by auto
next
  case (Released pre v0 site0 r0)
  from Released(2) have np: "\<And>a b c. VersionsPatch a b c \<notin> set pre"
      and nr: "\<And>a b c. ReleasesCreate a b c \<notin> set pre"
    by (simp_all add: isStaging_not_release isStaging_not_patch)
  from Released(1) np nr show ?thesis by auto
qed

theorem release_only_after_finalized_witness:
  "run demoLib demoWorld =
     (None, [VersionsCreate ''sites/demo'' demoServingConf (Inr ''v1''),
             VersionsPopulateFiles ''v1'' [''/index.html'' \<mapsto> ''5d05'', ''/secret.txt'' \<mapsto> ''1b04'']
               (Inr ([''5d05''], ''https://up'')),
             HttpPost ''https://up/5d05'' (Some [0x1f, 0x8b, 0x48, 0x69, 2]) 5 (Response 200 ''200 OK''),
             VersionsPatch ''v1'' ''FINALIZED'' (Inr ''FINALIZED''),
             ReleasesCreate ''sites/demo'' ''v1'' None])
   \<and> ReleasesCreate ''sites/demo'' ''v1'' None \<in> set (snd (run demoLib demoWorld))
   \<and> (\<exists>pre. snd (run demoLib demoWorld)
         = pre @ [VersionsPatch ''v1'' ''FINALIZED'' (Inr ''FINALIZED''), ReleasesCreate ''sites/demo'' ''v1'' None])
   \<and> VersionsPatch ''v1'' ''FINALIZED'' (Inr ''CREATED'') \<in> set (snd (run demoLib notFinalWorld))
   \<and> ''CREATED'' \<noteq> ''FINALIZED''
   \<and> fst (run demoLib notFinalWorld) = Some (UnexpectedFinalizationStatus ''CREATED'')
   \<and> (\<forall>site' v'' r'. ReleasesCreate site' v'' r' \<notin> set (snd (run demoLib notFinalWorld)))"
proof -
  have a: "ReleasesCreate ''sites/demo'' ''v1'' None \<in> set (snd (run demoLib demoWorld))"
    by (simp add: run_demo)
  have b: "VersionsPatch ''v1'' ''FINALIZED'' (Inr ''CREATED'') \<in> set (snd (run demoLib notFinalWorld))"
    by (simp add: run_notFinal)
  have c: "''CREATED'' \<noteq> ''FINALIZED''" by simp
  have r1: "run demoLib demoWorld = (fst (run demoLib demoWorld), snd (run demoLib demoWorld))" by simp
  have r2: "run demoLib notFinalWorld = (fst (run demoLib notFinalWorld), snd (run demoLib notFinalWorld))"
    by simp
  from release_only_after_finalized [OF r1, of "''sites/demo''" "''v1''" None] a
  have "\<exists>pre. snd (run demoLib demoWorld)
         = pre @ [VersionsPatch ''v1'' ''FINALIZED'' (Inr ''FINALIZED''), ReleasesCreate ''sites/demo'' ''v1'' None]"
    by blast
  moreover from release_only_after_finalized [OF r2, of _ _ _ "''v1''" "''FINALIZED''" "''CREATED''"] b c
  have "fst (run demoLib notFinalWorld) = Some (UnexpectedFinalizationStatus ''CREATED'')
      \<and> (\<forall>site' v'' r'. ReleasesCreate site' v'' r' \<notin> set (snd (run demoLib notFinalWorld)))"
    by blast
  ultimately show ?thesis using run_demo a b c by blast
qed

lemma run_refused:
  "run demoLib refusedWorld =
     (Some (UnexpectedUploadResponse ''1b04'' ''500 Internal Server Error''),
      [VersionsCreate ''sites/demo'' demoServingConf (Inr ''v1''),
       VersionsPopulateFiles ''v1'' [''/index.html'' \<mapsto> ''5d05'', ''/secret.txt'' \<mapsto> ''1b04'']
         (Inr ([''5d05'', ''1b04''], ''https://up'')),
       HttpPost ''https://up/5d05'' (Some [0x1f, 0x8b, 0x48, 0x69, 2]) 0 (Response 200 ''200 OK'')]
      @ HttpPost ''https://up/1b04'' (Some [0x1f, 0x8b, 0x70, 1]) 0 (Response 500 ''500 Internal Server Error'') # [])"
  by (simp add: run_defs demo_defs demoServingConf_def refusedWorld_def failingWorld_def)

lemma append_Cons_eq_Cons:
  "pre @ x # post = a # rest \<Longrightarrow> x \<noteq> a \<Longrightarrow> \<exists>pre'. pre = a # pre' \<and> rest = pre' @ x # post"
  by (cases pre) auto

text \<open>
  C6. If an upload made in a run is answered with a status other than 200, the run ends
  there with the error that names the hash of that upload and the status of the
  response. The calls of the run are then: the creation of the version, the
  reconciliation, uploads answered 200, and the refused upload as the last call. No
  further upload follows, and the run makes no finalize call and creates no release.
\<close>

theorem run_aborts_on_bad_upload_status:
  assumes "run L W = (res, pre @ HttpPost ep body n (Response code status) # post)"
      and "code \<noteq> 200"
  shows "post = []
       \<and> (\<exists>site conf version pathToHash toUpload uploadURL posts.
             pre = VersionsCreate site conf (Inr version)
                   # VersionsPopulateFiles version pathToHash (Inr (toUpload, uploadURL)) # posts
             \<and> list_all answered200 posts
             \<and> (\<exists>h\<in>set toUpload. ep = uploadURL @ ''/'' @ h
                   \<and> res = Some (UnexpectedUploadResponse h status)))
       \<and> (\<forall>v s r. VersionsPatch v s r \<notin> set (pre @ HttpPost ep body n (Response code status) # post))
       \<and> (\<forall>site v r. ReleasesCreate site v r \<notin> set (pre @ HttpPost ep body n (Response code status) # post))"
proof -
  let ?bad = "HttpPost ep body n (Response code status)"
  let ?tr = "pre @ ?bad # post"
  have mem: "?bad \<in> set ?tr" by simp
  from assms(1) show ?thesis
  proof (cases rule: run_cases)
    case (Config e)
    then show ?thesis by simp
  next
    case (Client c e)
    then show ?thesis by simp
  next
    case (Create c e)
    from createVersion_Inl [OF Create(2)] obtain cause where
      eq: "?tr = [VersionsCreate (''sites/'' @ Site (Hosting c)) (servingConf c) (Inl cause)]"
      by auto
    from mem have False unfolding eq by simp
    then show ?thesis ..
  next
    case (Walk c v e)
    from createVersion_Inr [OF Walk(2)] have
      eq: "?tr = [VersionsCreate (''sites/'' @ Site (Hosting c)) (servingConf c) (Inr v)]"
      by simp
    from mem have False unfolding eq by simp
    then show ?thesis ..
  next
    case (Populate c v tr1 m s e)
    from createVersion_Inr [OF Populate(2)] getRequiredUploads_Inl [OF Populate(4)]
    obtain cause where
      eq: "?tr = [VersionsCreate (''sites/'' @ Site (Hosting c)) (servingConf c) (Inr v),
                  VersionsPopulateFiles v m (Inl cause)]"
      by auto
    from mem have False unfolding eq by simp
    then show ?thesis ..
  next
    case (Upload c v tr1 m s hs url tr2 e)
    let ?vc = "VersionsCreate (''sites/'' @ Site (Hosting c)) (servingConf c) (Inr v)"
    let ?pf = "VersionsPopulateFiles v m (Inr (hs, url))"
    from createVersion_Inr [OF Upload(2)] getRequiredUploads_Inr [OF Upload(4)]
    have tr2: "tr2 = [?vc, ?pf]" by simp
    from Upload(5) obtain new where new: "?tr = tr2 @ new"
      by (cases rule: uploadFiles_cases) auto
    with tr2 have "?tr = ?vc # ?pf # new" by simp
    from append_Cons_eq_Cons [OF this] obtain pre1 where p1: "pre = ?vc # pre1" "?pf # new = pre1 @ ?bad # post"
      by auto
    from append_Cons_eq_Cons [OF p1(2) [symmetric]] obtain posts where p2: "pre1 = ?pf # posts" "new = posts @ ?bad # post"
      by auto
    from Upload(5) new p2(2) have "uploadFiles W v hs url s tr2 = (Some e, tr2 @ posts @ ?bad # post)"
      by simp
    from uploadFiles_aborts_on_bad_status [OF this assms(2)] Upload(6)
    have a: "post = []" "list_all answered200 posts"
      "\<forall>v s r. VersionsPatch v s r \<notin> set (posts @ ?bad # post)"
      "\<exists>h\<in>set hs. ep = url @ ''/'' @ h \<and> res = Some (UnexpectedUploadResponse h status)"
      by auto
    from a(2) have "list_all isPost posts" by (rule answered200_list_isPost)
    then have nr: "\<forall>site v r. ReleasesCreate site v r \<notin> set (posts @ ?bad # post)"
      using a(1) by (auto simp: list_all_iff)
    have pre: "pre = ?vc # ?pf # posts" using p1(1) p2(1) by simp
    have "\<exists>site conf version pathToHash toUpload uploadURL posts'.
             pre = VersionsCreate site conf (Inr version)
                   # VersionsPopulateFiles version pathToHash (Inr (toUpload, uploadURL)) # posts'
             \<and> list_all answered200 posts'
             \<and> (\<exists>h\<in>set toUpload. ep = uploadURL @ ''/'' @ h
                   \<and> res = Some (UnexpectedUploadResponse h status))"
      using pre a(2,4) by blast
    moreover have "\<forall>v s r. VersionsPatch v s r \<notin> set ?tr"
      using a(3) pre by simp
    moreover have "\<forall>site v r. ReleasesCreate site v r \<notin> set ?tr"
      using nr pre by simp
    ultimately show ?thesis using a(1) by blast
  next
    case (Release c v tr1 m s hs url tr2 tr3)
    from createVersion_Inr [OF Release(2)] getRequiredUploads_Inr [OF Release(4)]
    have tr2: "list_all isStaging tr2" "\<forall>e\<in>set tr2. \<not> isPost e" by simp_all
    from Release(5) obtain new where new: "tr3 = tr2 @ new @ [VersionsPatch v ''FINALIZED'' (Inr ''FINALIZED'')]"
      "list_all answered200 new" by (rule uploadFiles_None)
    from release_eq [OF Release(6)] new(1)
    have eq: "?tr = tr2 @ new @ [VersionsPatch v ''FINALIZED'' (Inr ''FINALIZED''),
        ReleasesCreate (''sites/'' @ Site (Hosting c)) v (releasesCreate W tr3 (''sites/'' @ Site (Hosting c)) v)]"
      by simp
    from mem have "?bad \<in> set tr2 \<or> ?bad \<in> set new" unfolding eq by simp
    with tr2(2) have "?bad \<in> set new" by auto
    with new(2) have "answered200 ?bad" unfolding list_all_iff by (rule bspec)
    with assms(2) show ?thesis by simp
  qed
qed

theorem run_aborts_on_bad_upload_status_witness:
  "run demoLib refusedWorld =
     (Some (UnexpectedUploadResponse ''1b04'' ''500 Internal Server Error''),
      [VersionsCreate ''sites/demo'' demoServingConf (Inr ''v1''),
       VersionsPopulateFiles ''v1'' [''/index.html'' \<mapsto> ''5d05'', ''/secret.txt'' \<mapsto> ''1b04'']
         (Inr ([''5d05'', ''1b04''], ''https://up'')),
       HttpPost ''https://up/5d05'' (Some [0x1f, 0x8b, 0x48, 0x69, 2]) 0 (Response 200 ''200 OK'')]
      @ HttpPost ''https://up/1b04'' (Some [0x1f, 0x8b, 0x70, 1]) 0 (Response 500 ''500 Internal Server Error'') # [])
   \<and> (500::int) \<noteq> 200
   \<and> (\<exists>site conf version pathToHash toUpload uploadURL posts.
         [VersionsCreate ''sites/demo'' demoServingConf (Inr ''v1''),
          VersionsPopulateFiles ''v1'' [''/index.html'' \<mapsto> ''5d05'', ''/secret.txt'' \<mapsto> ''1b04'']
            (Inr ([''5d05'', ''1b04''], ''https://up'')),
          HttpPost ''https://up/5d05'' (Some [0x1f, 0x8b, 0x48, 0x69, 2]) 0 (Response 200 ''200 OK'')]
           = VersionsCreate site conf (Inr version)
               # VersionsPopulateFiles version pathToHash (Inr (toUpload, uploadURL)) # posts
         \<and> list_all answered200 posts
         \<and> (\<exists>h\<in>set toUpload. ''https://up/1b04'' = uploadURL @ ''/'' @ h
               \<and> Some (UnexpectedUploadResponse ''1b04'' ''500 Internal Server Error'')
                   = Some (UnexpectedUploadResponse h ''500 Internal Server Error'')))"
proof -
  have c: "(500::int) \<noteq> 200" by simp
  from run_aborts_on_bad_upload_status [OF run_refused c] run_refused c
  show ?thesis by blast
qed

text \<open>
  C4, as the code has it. The configuration is read before anything else, so a run that
  fails on it has made no call to the hosting service. The directory is walked after the
  version has been created: a run that fails in the walk (on opening, reading or
  compressing a file) has made exactly one call, the successful creation of the version,
  and none after it.
\<close>

theorem local_errors_and_remote_calls:
  assumes "run L W = (Some e, tr)"
  shows "(e = ReadConfigErr f cause \<or> e = UnmarshalErr f cause \<longrightarrow> tr = [])
       \<and> (e = WalkErr root inner \<longrightarrow> (\<exists>site conf version. tr = [VersionsCreate site conf (Inr version)]))"
  using assms
proof (cases rule: run_cases)
  case (Config e')
  from readConfig_Inl [OF Config(1)] Config(2,3) show ?thesis by auto
next
  case (Client c e')
  then show ?thesis by auto
next
  case (Create c e')
  from createVersion_Inl [OF Create(2)] Create(3) show ?thesis by auto
next
  case (Walk c v e')
  from createVersion_Inr [OF Walk(2)] readFiles_Inl [OF Walk(3)] Walk(4) show ?thesis by auto
next
  case (Populate c v tr1 m s e')
  from getRequiredUploads_Inl [OF Populate(4)] Populate(5) show ?thesis by auto
next
  case (Upload c v tr1 m s hs url tr2 e')
  from uploadFiles_error_kinds [OF Upload(5)] Upload(6) show ?thesis by auto
next
  case (Release c v tr1 m s hs url tr2 tr3)
  from release_eq [OF Release(6)] show ?thesis by auto
qed

theorem local_errors_and_remote_calls_witness:
  "run demoLib noConfigWorld = (Some (ReadConfigErr ''firebase.json'' ''no such file or directory''), [])
   \<and> run demoLib walkFailWorld =
       (Some (WalkErr ''public'' (OpenErr ''index.html'' ''permission denied'')),
        [VersionsCreate ''sites/demo'' demoServingConf (Inr ''v1'')])
   \<and> (\<exists>site conf version. [VersionsCreate ''sites/demo'' demoServingConf (Inr ''v1'')]
         = [VersionsCreate site conf (Inr version)])"
proof -
  from local_errors_and_remote_calls [OF run_walkFail, of _ _ "''public''" "OpenErr ''index.html'' ''permission denied''"]
  have "\<exists>site conf version. [VersionsCreate ''sites/demo'' demoServingConf (Inr ''v1'')]
         = [VersionsCreate site conf (Inr version)]"
    by blast
  moreover from local_errors_and_remote_calls [OF run_noConfig, of "''firebase.json''" "''no such file or directory''"]
  have "([] :: event list) = []" by blast
  ultimately show ?thesis using run_noConfig run_walkFail by blast
qed

text \<open>
  C4 as stated fails for the walk: this run ends with a walk error, and the version
  creation call has been made by then.
\<close>

theorem walk_error_after_version_created:
  "fst (run demoLib walkFailWorld) = Some (WalkErr ''public'' (OpenErr ''index.html'' ''permission denied''))
   \<and> snd (run demoLib walkFailWorld) = [VersionsCreate ''sites/demo'' demoServingConf (Inr ''v1'')]"
  by (simp add: run_walkFail)

text \<open>
  C9, as the code has it. Two files with the same content get the same hash in the
  manifest. \<open>uploadFiles\<close> never consults the manifest: it posts that hash at most as
  often as the list returned by reconciliation names it, hence at most once when the
  list names it at most once, however many paths share it.
\<close>

theorem same_content_same_hash:
  assumes "readFiles L W fbConf = Inr (pathToHash, hashToGzip)"
      and "v1 \<in> set (files (walkDir W (Public (Hosting fbConf))))"
      and "v2 \<in> set (files (walkDir W (Public (Hosting fbConf))))"
      and "distinct (map v_path (files (walkDir W (Public (Hosting fbConf)))))"
      and "v_data v1 = v_data v2"
      and "uploadFiles W version toUpload uploadURL hashToGzip tr0 = (res, tr0 @ new)"
  shows "pathToHash (''/'' @ v_path v1) = Some (contentHash L (v_data v1))
       \<and> pathToHash (''/'' @ v_path v2) = Some (contentHash L (v_data v1))
       \<and> length (filter (isPostTo (uploadURL @ ''/'' @ contentHash L (v_data v1))) new)
           \<le> count_list toUpload (contentHash L (v_data v1))"
proof (intro conjI)
  have "pathToHash (fileKey v1) = Some (contentHash L (v_data v1))"
    unfolding readFiles_manifest [OF assms(1)] by (rule fold_addFile_lookup [OF assms(2,4)])
  then show "pathToHash (''/'' @ v_path v1) = Some (contentHash L (v_data v1))"
    by (simp only: fileKey_def)
  have "pathToHash (fileKey v2) = Some (contentHash L (v_data v2))"
    unfolding readFiles_manifest [OF assms(1)] by (rule fold_addFile_lookup [OF assms(3,4)])
  then show "pathToHash (''/'' @ v_path v2) = Some (contentHash L (v_data v1))"
    by (simp only: fileKey_def assms(5))
  from assms(6) show "length (filter (isPostTo (uploadURL @ ''/'' @ contentHash L (v_data v1))) new)
           \<le> count_list toUpload (contentHash L (v_data v1))"
  proof (cases rule: uploadFiles_cases)
    case (LoopFailed e new' st')
    from LoopFailed(3) have "new = new'" by simp
    with uploadLoop_count [OF LoopFailed(1)] show ?thesis by simp
  next
    case (Patched new' st' r)
    from Patched(4) have "new = new' @ [VersionsPatch version ''FINALIZED'' r]" by simp
    with uploadLoop_count [OF Patched(1)] show ?thesis by simp
  qed
qed

lemma files_dup:
  "files (walkDir dupWorld (Public (Hosting demoConf)))
     = [fileVisit ''a.html'' [0x48, 0x69], fileVisit ''b.html'' [0x48, 0x69]]"
  by (simp add: files_def demo_defs dupWorld_def)

lemma uploadFiles_dup_once:
  "uploadFiles dupWorld ''v1'' [''5d05''] ''https://up'' [''5d05'' \<mapsto> [0x1f, 0x8b, 0x48, 0x69, 2]] [] =
     (None, [] @ [HttpPost ''https://up/5d05'' (Some [0x1f, 0x8b, 0x48, 0x69, 2]) 5 (Response 200 ''200 OK''),
            VersionsPatch ''v1'' ''FINALIZED'' (Inr ''FINALIZED'')])"
  by (simp add: uploadFiles_def uploadOne_def Let_def demoWorld_def dupWorld_def)

theorem same_content_same_hash_witness:
  "readFiles demoLib dupWorld demoConf =
     Inr ([''/a.html'' \<mapsto> ''5d05'', ''/b.html'' \<mapsto> ''5d05''],
          [''5d05'' \<mapsto> [0x1f, 0x8b, 0x48, 0x69, 2]])
   \<and> fileVisit ''a.html'' [0x48, 0x69] \<in> set (files (walkDir dupWorld (Public (Hosting demoConf))))
   \<and> fileVisit ''b.html'' [0x48, 0x69] \<in> set (files (walkDir dupWorld (Public (Hosting demoConf))))
   \<and> distinct (map v_path (files (walkDir dupWorld (Public (Hosting demoConf)))))
   \<and> v_data (fileVisit ''a.html'' [0x48, 0x69]) = v_data (fileVisit ''b.html'' [0x48, 0x69])
   \<and> uploadFiles dupWorld ''v1'' [''5d05''] ''https://up'' [''5d05'' \<mapsto> [0x1f, 0x8b, 0x48, 0x69, 2]] [] =
     (None, [] @ [HttpPost ''https://up/5d05'' (Some [0x1f, 0x8b, 0x48, 0x69, 2]) 5 (Response 200 ''200 OK''),
            VersionsPatch ''v1'' ''FINALIZED'' (Inr ''FINALIZED'')])
   \<and> [''/a.html'' \<mapsto> ''5d05'', ''/b.html'' \<mapsto> ''5d05''] ''/a.html'' = Some ''5d05''
   \<and> [''/a.html'' \<mapsto> ''5d05'', ''/b.html'' \<mapsto> ''5d05''] ''/b.html'' = Some ''5d05''
   \<and> length (filter (isPostTo ''https://up/5d05'')
        [HttpPost ''https://up/5d05'' (Some [0x1f, 0x8b, 0x48, 0x69, 2]) 5 (Response 200 ''200 OK''),
         VersionsPatch ''v1'' ''FINALIZED'' (Inr ''FINALIZED'')]) \<le> count_list [''5d05''] ''5d05''"
proof -
  have a: "fileVisit ''a.html'' [0x48, 0x69] \<in> set (files (walkDir dupWorld (Public (Hosting demoConf))))"
    by (simp add: files_dup)
  have b: "fileVisit ''b.html'' [0x48, 0x69] \<in> set (files (walkDir dupWorld (Public (Hosting demoConf))))"
    by (simp add: files_dup)
  have d: "distinct (map v_path (files (walkDir dupWorld (Public (Hosting demoConf)))))"
    by (simp add: files_dup fileVisit_def)
  have e: "v_data (fileVisit ''a.html'' [0x48, 0x69]) = v_data (fileVisit ''b.html'' [0x48, 0x69])"
    by (simp add: fileVisit_def)
  have h: "contentHash demoLib (v_data (fileVisit ''a.html'' [0x48, 0x69])) = ''5d05''"
    by (simp add: contentHash_def gzipStream_def hextable_def demoLib_def fileVisit_def)
  have p: "''/'' @ v_path (fileVisit ''a.html'' [0x48, 0x69]) = ''/a.html''"
      "''/'' @ v_path (fileVisit ''b.html'' [0x48, 0x69]) = ''/b.html''"
      "''https://up'' @ ''/'' @ ''5d05'' = ''https://up/5d05''"
    by (simp_all add: fileVisit_def)
  note t = same_content_same_hash [OF readFiles_dup a b d e uploadFiles_dup_once, unfolded h p]
  from t readFiles_dup a b d e uploadFiles_dup_once show ?thesis by (intro conjI) blast+
qed

text \<open>
  C9 as stated fails when reconciliation names the shared hash twice: both paths get the
  hash \<open>5d05\<close>, and the run posts that hash twice.
\<close>

theorem shared_hash_posted_twice:
  "readFiles demoLib dupWorld demoConf =
     Inr ([''/a.html'' \<mapsto> ''5d05'', ''/b.html'' \<mapsto> ''5d05''],
          [''5d05'' \<mapsto> [0x1f, 0x8b, 0x48, 0x69, 2]])
   \<and> uploads (snd (run demoLib dupWorld)) =
       [(''https://up/5d05'', Some [0x1f, 0x8b, 0x48, 0x69, 2]), (''https://up/5d05'', Some [])]"
  by (simp add: readFiles_dup run_dup uploads_def map_filter_simps)

end
